theory Spec2Isabelle
  imports Main "HOL-Library.Sublist" "HOL-Library.Multiset"
    "HOL-Library.List_Lexorder" "HOL-Library.Char_ord"
begin

section \<open>The configuration model of arbol (internal/config/config.go)\<close>

text \<open>
  The development embeds the functions of \<^verbatim>\<open>internal/config/config.go\<close>. Go strings are
  byte strings and are modelled as \<^typ>\<open>string\<close>. A Go map is a partial function; since a
  \<^verbatim>\<open>range\<close> statement over a Go map visits the keys in an order the language leaves open
  (and that may differ from one loop to the next), every function that ranges over a map takes
  the order of that visit as an explicit list of keys. The home directory, which the code
  asks of the operating system, is an explicit argument as well. Reading the file and
  decoding TOML are outside the package: loading starts from the decoded tree.
\<close>

subsection \<open>Functions of the Go standard library used by the package\<close>

text \<open>\<^verbatim>\<open>strings.HasPrefix(s, p)\<close>.\<close>

definition HasPrefix :: "string \<Rightarrow> string \<Rightarrow> bool" where
  "HasPrefix s p = prefix p s"

text \<open>\<^verbatim>\<open>strings.TrimSuffix(s, suffix)\<close>: one occurrence of the suffix is removed.\<close>

definition TrimSuffix :: "string \<Rightarrow> string \<Rightarrow> string" where
  "TrimSuffix s suf = (if suffix suf s then take (length s - length suf) s else s)"

text \<open>
  \<^verbatim>\<open>strings.Split(s, sep)\<close> for a separator of one byte, the only use the package makes of it:
  the result is never empty, and \<^verbatim>\<open>Split("", sep)\<close> is the list holding the empty string.
\<close>

fun Split :: "string \<Rightarrow> char \<Rightarrow> string list" where
  "Split [] sep = [[]]"
| "Split (c # cs) sep =
     (if c = sep then [] # Split cs sep
      else (case Split cs sep of p # ps \<Rightarrow> (c # p) # ps | [] \<Rightarrow> [[c]]))"

text \<open>\<^verbatim>\<open>strings.Join(elems, sep)\<close> for a separator of one byte.\<close>

fun Join :: "string list \<Rightarrow> char \<Rightarrow> string" where
  "Join [] sep = []"
| "Join [p] sep = p"
| "Join (p # q # ps) sep = p @ sep # Join (q # ps) sep"

text \<open>\<^verbatim>\<open>strings.ReplaceAll(s, old, new)\<close> for \<^verbatim>\<open>old\<close> and \<^verbatim>\<open>new\<close> of one byte each.\<close>

definition ReplaceAll :: "string \<Rightarrow> char \<Rightarrow> char \<Rightarrow> string" where
  "ReplaceAll s old new = map (\<lambda>c. if c = old then new else c) s"

text \<open>\<^verbatim>\<open>strings.Contains(s, substr)\<close> for \<^verbatim>\<open>substr\<close> of one byte.\<close>

definition Contains :: "string \<Rightarrow> char \<Rightarrow> bool" where
  "Contains s c = (c \<in> set s)"

text \<open>
  \<^verbatim>\<open>filepath.Base(path)\<close> on a system whose separator is the slash: the empty path gives
  \<^verbatim>\<open>"."\<close>, trailing slashes are removed, the bytes after the last remaining slash are
  returned, and a path of slashes only gives \<^verbatim>\<open>"/"\<close>.
\<close>

definition Base :: "string \<Rightarrow> string" where
  "Base path =
     (if path = [] then ''.''
      else let stripped = rev (dropWhile (\<lambda>c. c = CHR ''/'') (rev path));
               elem = rev (takeWhile (\<lambda>c. c \<noteq> CHR ''/'') (rev stripped))
           in if elem = [] then ''/'' else elem)"

text \<open>
  \<^verbatim>\<open>filepath.Clean(path)\<close> on such a system: empty and \<^verbatim>\<open>.\<close> elements are dropped, a
  \<^verbatim>\<open>..\<close> element removes the element before it (at the root it is dropped, at the start of a
  relative path it is kept), and the empty result is \<^verbatim>\<open>"."\<close>. The elements kept so far are
  held in reverse.
\<close>

definition clean_step :: "bool \<Rightarrow> string \<Rightarrow> string list \<Rightarrow> string list" where
  "clean_step rooted elem kept =
     (if elem = [] \<or> elem = ''.'' then kept
      else if elem = ''..'' then
        (case kept of
           [] \<Rightarrow> if rooted then [] else [''..'']
         | el # below \<Rightarrow> if el = ''..'' then ''..'' # kept else below)
      else elem # kept)"

definition Clean :: "string \<Rightarrow> string" where
  "Clean path =
     (let rooted = HasPrefix path ''/'';
          kept = rev (fold (clean_step rooted) (Split path (CHR ''/'')) []);
          out = (if rooted then ''/'' else []) @ Join kept (CHR ''/'')
      in if out = [] then ''.'' else out)"

text \<open>
  \<^verbatim>\<open>filepath.Join(elem...)\<close>: the elements from the first non-empty one on are joined with
  slashes and cleaned; with no non-empty element the result is empty.
\<close>

definition filepath_Join :: "string list \<Rightarrow> string" where
  "filepath_Join elem =
     (case dropWhile (\<lambda>e. e = []) elem of
        [] \<Rightarrow> []
      | e # es \<Rightarrow> Clean (Join (e # es) (CHR ''/'')))"

subsection \<open>Data model\<close>

record Repo =
  URL :: string
  Name :: string

text \<open>
  A Go map with string keys. \<^verbatim>\<open>range_order m ks\<close> says that \<open>ks\<close> is an order in which a
  \<^verbatim>\<open>range\<close> statement may visit the map: every key once. \<^verbatim>\<open>entries m ks\<close> are the
  key and value pairs such a loop sees.
\<close>

type_synonym 'v gomap = "string \<rightharpoonup> 'v"

definition range_order :: "'v gomap \<Rightarrow> string list \<Rightarrow> bool" where
  "range_order m ks = (distinct ks \<and> set ks = dom m)"

definition entries :: "'v gomap \<Rightarrow> string list \<Rightarrow> (string \<times> 'v) list" where
  "entries m ks = List.map_filter (\<lambda>k. map_option (Pair k) (m k)) ks"

record Account =
  Default :: bool
  Root :: string
  Repos :: "Repo list gomap"

record Config =
  Accounts :: "Account gomap"

text \<open>
  \<^verbatim>\<open>RepoWithPath\<close>; its field \<^verbatim>\<open>Name\<close> is called \<open>RName\<close> here, \<open>Name\<close> being the field
  of \<^typ>\<open>Repo\<close>.
\<close>

record RepoWithPath =
  Repo :: Repo
  Path :: string
  FullPath :: string
  RName :: string

text \<open>
  A value decoded from TOML into \<^verbatim>\<open>any\<close>: a string, a boolean, an array
  (\<^verbatim>\<open>[]any\<close>), a table (\<^verbatim>\<open>map[string]any\<close>) or a value of another type. A table is
  given by its entries in the order in which the one \<^verbatim>\<open>range\<close> statement that walks it
  visits them; its keys are distinct.
\<close>

datatype any = String string | Boolean bool | Array "any list" | Table "(string \<times> any) list" | Other

text \<open>
  The errors of the package are built by \<^verbatim>\<open>fmt.Errorf\<close>; each constructor stands for one
  call site and carries the arguments of its format string. For the conflict error these are
  the account name, the path, the repository name, the conflicting path, the expanded root
  and the conflicting path with slashes for dots.
\<close>

datatype error =
    MissingAccountsSection
  | ConfigConflict string string string string string string
  | NoDefaultAmbiguous

text \<open>The last line of the conflict message, \<^verbatim>\<open>Both would use path: %s/%s/\<close>.\<close>

fun conflict_location :: "error \<Rightarrow> string" where
  "conflict_location (ConfigConflict accountName path repoName conflictPath root dirs) =
     root @ ''/'' @ dirs @ ''/''"
| "conflict_location _ = []"

subsection \<open>Names and paths\<close>

text \<open>\<^verbatim>\<open>RepoName\<close>: the repository name taken from a git URL.\<close>

definition RepoName :: "string \<Rightarrow> string" where
  "RepoName url = TrimSuffix (Base url) ''.git''"

text \<open>
  The name under which a repository is resolved; \<^verbatim>\<open>Validate\<close>, \<^verbatim>\<open>GetRepos\<close> and
  \<^verbatim>\<open>RepoPaths\<close> each compute it with the same three lines.
\<close>

definition resolved_name :: "Repo \<Rightarrow> string" where
  "resolved_name repo = (if Name repo \<noteq> [] then Name repo else RepoName (URL repo))"

text \<open>
  \<^verbatim>\<open>ExpandPath\<close>; \<open>home\<close> is what \<^verbatim>\<open>os.UserHomeDir\<close> returns (the empty string when it
  fails, its error being dropped).
\<close>

definition ExpandPath :: "string \<Rightarrow> string \<Rightarrow> string" where
  "ExpandPath home path =
     (if HasPrefix path ''~/'' then filepath_Join [home, drop 2 path] else path)"

subsection \<open>The parser\<close>

text \<open>The body of the loop over the items of a repository array.\<close>

fun parse_repo_items :: "any list \<Rightarrow> Repo list" where
  "parse_repo_items [] = []"
| "parse_repo_items (item # items) =
     (case item of
        Table repoMap \<Rightarrow>
          \<lparr>URL = (case map_of repoMap ''url'' of Some (String url) \<Rightarrow> url | _ \<Rightarrow> []),
           Name = (case map_of repoMap ''name'' of Some (String name) \<Rightarrow> name | _ \<Rightarrow> [])\<rparr>
            # parse_repo_items items
      | _ \<Rightarrow> parse_repo_items items)"

text \<open>\<^verbatim>\<open>parseReposRecursive\<close>; the map \<open>repos\<close> it writes to is passed through.\<close>

fun parseReposRecursive :: "(string \<times> any) list \<Rightarrow> string \<Rightarrow> Repo list gomap \<Rightarrow> Repo list gomap" where
  "parseReposRecursive [] pre repos = repos"
| "parseReposRecursive ((key, val) # rest) pre repos =
     parseReposRecursive rest pre
       (case val of
          Array v \<Rightarrow>
            repos((if key = ''/'' then pre
                   else if pre = [] then key else pre @ ''.'' @ key) \<mapsto> parse_repo_items v)
        | Table v \<Rightarrow> parseReposRecursive v (if pre = [] then key else pre @ ''.'' @ key) repos
        | _ \<Rightarrow> repos)"

text \<open>
  Two notions used to state what the parser guarantees. A path is free of the marker when
  none of its dot-separated segments is \<^verbatim>\<open>"/"\<close>. A table uses the marker as the
  configuration format intends when \<^verbatim>\<open>"/"\<close> occurs only as the key of an array: the key
  of a table, and any other key of an array, has no segment \<^verbatim>\<open>"/"\<close>.
\<close>

definition slash_free :: "string \<Rightarrow> bool" where
  "slash_free path = (''/'' \<notin> set (Split path (CHR ''.'')))"

fun marker_on_arrays :: "(string \<times> any) list \<Rightarrow> bool" where
  "marker_on_arrays [] = True"
| "marker_on_arrays ((key, val) # rest) =
     ((case val of
         Array v \<Rightarrow> key = ''/'' \<or> slash_free key
       | Table v \<Rightarrow> slash_free key \<and> marker_on_arrays v
       | _ \<Rightarrow> True)
      \<and> marker_on_arrays rest)"

subsection \<open>Validation\<close>

text \<open>
  The inner loop of the first half of \<^verbatim>\<open>Account.Validate\<close>: for every proper prefix of
  the segments of a path, the next segment is recorded as a child of that prefix.
\<close>

definition add_subpaths :: "string \<Rightarrow> string set gomap \<Rightarrow> string set gomap" where
  "add_subpaths path subpaths =
     (let parts = Split path (CHR ''.'')
      in fold (\<lambda>i sp.
                 let parentPath = Join (take (i + 1) parts) (CHR ''.'');
                     childSegment = parts ! (i + 1)
                 in sp(parentPath \<mapsto>
                         insert childSegment (case sp parentPath of None \<Rightarrow> {} | Some s \<Rightarrow> s)))
              [0..<length parts - 1] subpaths)"

fun build_subpaths :: "(string \<times> Repo list) list \<Rightarrow> string set gomap \<Rightarrow> string set gomap" where
  "build_subpaths [] subpaths = subpaths"
| "build_subpaths ((path, repos) # rest) subpaths = build_subpaths rest (add_subpaths path subpaths)"

text \<open>The loop over the repositories of one path, in the second half.\<close>

fun Validate_repos :: "string \<Rightarrow> string \<Rightarrow> string \<Rightarrow> string set \<Rightarrow> Repo list \<Rightarrow> error option" where
  "Validate_repos accountName root path siblings [] = None"
| "Validate_repos accountName root path siblings (repo # repos) =
     (let repoName = resolved_name repo
      in if repoName \<in> siblings then
           (let conflictPath = path @ ''.'' @ repoName
            in Some (ConfigConflict accountName path repoName conflictPath root
                       (ReplaceAll conflictPath (CHR ''.'') (CHR ''/''))))
         else Validate_repos accountName root path siblings repos)"

fun Validate_paths ::
  "string \<Rightarrow> string \<Rightarrow> string set gomap \<Rightarrow> (string \<times> Repo list) list \<Rightarrow> error option" where
  "Validate_paths accountName root subpaths [] = None"
| "Validate_paths accountName root subpaths ((path, repos) # rest) =
     (case subpaths path of
        None \<Rightarrow> Validate_paths accountName root subpaths rest
      | Some siblings \<Rightarrow>
          (case Validate_repos accountName root path siblings repos of
             Some err \<Rightarrow> Some err
           | None \<Rightarrow> Validate_paths accountName root subpaths rest))"

text \<open>
  \<^verbatim>\<open>Account.Validate\<close>. It ranges over \<^verbatim>\<open>a.Repos\<close> twice: \<open>ks1\<close> is the order of the
  first loop and \<open>ks2\<close> the order of the second. \<open>None\<close> is the \<^verbatim>\<open>nil\<close> error.
\<close>

definition Account_Validate ::
  "Account \<Rightarrow> string \<Rightarrow> string \<Rightarrow> string list \<Rightarrow> string list \<Rightarrow> error option" where
  "Account_Validate a accountName home ks1 ks2 =
     Validate_paths accountName (ExpandPath home (Root a))
       (build_subpaths (entries (Repos a) ks1) Map.empty) (entries (Repos a) ks2)"

text \<open>
  \<^verbatim>\<open>Config.Validate\<close>: \<open>aks\<close> is the order in which the accounts are visited, and
  \<open>ord\<close> gives, for each account name, the two orders its own validation uses.
\<close>

fun Validate_accounts ::
  "string \<Rightarrow> (string \<Rightarrow> string list \<times> string list) \<Rightarrow> (string \<times> Account) list \<Rightarrow> error option" where
  "Validate_accounts home ord [] = None"
| "Validate_accounts home ord ((accountName, account) # rest) =
     (case Account_Validate account accountName home (fst (ord accountName)) (snd (ord accountName)) of
        Some err \<Rightarrow> Some err
      | None \<Rightarrow> Validate_accounts home ord rest)"

definition Config_Validate ::
  "Config \<Rightarrow> string \<Rightarrow> string list \<Rightarrow> (string \<Rightarrow> string list \<times> string list) \<Rightarrow> error option" where
  "Config_Validate c home aks ord = Validate_accounts home ord (entries (Accounts c) aks)"

text \<open>
  The conflict rule in the words of the specification. The child segments of a path \<open>P\<close>
  are the segments that follow \<open>P\<close> in the keys having \<open>P\<close> as a strict dot-prefix; an
  account has a conflict when some path holds a repository whose resolved name is one of
  the child segments of that path.
\<close>

definition child_segments :: "Repo list gomap \<Rightarrow> string \<Rightarrow> string set" where
  "child_segments repos P =
     {child. \<exists>K\<in>dom repos. \<exists>more. Split K (CHR ''.'') = Split P (CHR ''.'') @ child # more}"

definition conflict_at :: "Account \<Rightarrow> string \<Rightarrow> Repo \<Rightarrow> bool" where
  "conflict_at a P r =
     (\<exists>rs. Repos a P = Some rs \<and> r \<in> set rs \<and> resolved_name r \<in> child_segments (Repos a) P)"

text \<open>The children recorded for a path in the map \<^verbatim>\<open>subpaths\<close> (none for a missing key).\<close>

definition siblings_of :: "string set gomap \<Rightarrow> string \<Rightarrow> string set" where
  "siblings_of subpaths path = (case subpaths path of None \<Rightarrow> {} | Some s \<Rightarrow> s)"

subsection \<open>Loading\<close>

text \<open>The loop of \<^verbatim>\<open>LoadFromPath\<close> over the raw accounts.\<close>

fun load_accounts :: "(string \<times> any) list \<Rightarrow> Account gomap \<Rightarrow> Account gomap" where
  "load_accounts [] accounts = accounts"
| "load_accounts ((accountName, accountData) # rest) accounts =
     (case accountData of
        Table accountMap \<Rightarrow>
          load_accounts rest
            (accounts(accountName \<mapsto>
               \<lparr>Default = (case map_of accountMap ''default'' of Some (Boolean def) \<Rightarrow> def | _ \<Rightarrow> False),
                Root = (case map_of accountMap ''root'' of Some (String root) \<Rightarrow> root | _ \<Rightarrow> []),
                Repos = (case map_of accountMap ''repos'' of
                           Some (Table reposRaw) \<Rightarrow> parseReposRecursive reposRaw [] Map.empty
                         | _ \<Rightarrow> Map.empty)\<rparr>))
      | _ \<Rightarrow> load_accounts rest accounts)"

text \<open>
  \<^verbatim>\<open>LoadFromPath\<close> from the point where the file has been read and decoded: \<open>raw\<close> is the
  decoded top-level table.
\<close>

definition LoadFromPath ::
  "(string \<times> any) list \<Rightarrow> string \<Rightarrow> string list \<Rightarrow> (string \<Rightarrow> string list \<times> string list)
     \<Rightarrow> error + Config" where
  "LoadFromPath raw home aks ord =
     (case map_of raw ''accounts'' of
        Some (Table accountsRaw) \<Rightarrow>
          (let config = \<lparr>Accounts = load_accounts accountsRaw Map.empty\<rparr>
           in case Config_Validate config home aks ord of
                Some err \<Rightarrow> Inl err
              | None \<Rightarrow> Inr config)
      | _ \<Rightarrow> Inl MissingAccountsSection)"

subsection \<open>The default account\<close>

text \<open>
  \<^verbatim>\<open>Config.DefaultAccount\<close>: \<open>ks1\<close> is the order of the loop that looks for a default
  account and \<open>ks2\<close> the order of the loop that returns the only account.
\<close>

definition DefaultAccount :: "Config \<Rightarrow> string list \<Rightarrow> string list \<Rightarrow> error + Account \<times> string" where
  "DefaultAccount c ks1 ks2 =
     (case List.find (\<lambda>(name, account). Default account) (entries (Accounts c) ks1) of
        Some (name, account) \<Rightarrow> Inr (account, name)
      | None \<Rightarrow>
          (if card (dom (Accounts c)) = 1 then
             (case entries (Accounts c) ks2 of
                (name, account) # rest \<Rightarrow> Inr (account, name)
              | [] \<Rightarrow> Inl NoDefaultAmbiguous)
           else Inl NoDefaultAmbiguous))"

subsection \<open>The resolver\<close>

text \<open>The test that makes the loop over the paths skip a path.\<close>

definition path_skipped :: "string \<Rightarrow> string \<Rightarrow> bool" where
  "path_skipped pathFilter path =
     (pathFilter \<noteq> [] \<and> \<not> HasPrefix path pathFilter \<and> \<not> HasPrefix pathFilter path)"

text \<open>The test that makes the loop over the repositories of a path skip a repository.\<close>

definition repo_skipped :: "string \<Rightarrow> string \<Rightarrow> string \<Rightarrow> bool" where
  "repo_skipped pathFilter path name =
     (pathFilter \<noteq> [] \<and> Contains pathFilter (CHR ''.'') \<and>
      (let fullRepoPath = path @ ''.'' @ name
       in \<not> HasPrefix fullRepoPath pathFilter \<and> fullRepoPath \<noteq> pathFilter \<and>
          (let parts = Split pathFilter (CHR ''.'');
               filterPath = Join (take (length parts - 1) parts) (CHR ''.'');
               filterName = parts ! (length parts - 1)
           in (filterPath \<noteq> path \<or> filterName \<noteq> name) \<and>
              length parts > length (Split path (CHR ''.'')) + 1)))"

text \<open>The record appended to the result for a repository that is kept.\<close>

definition resolved_repo :: "string \<Rightarrow> string \<Rightarrow> Repo \<Rightarrow> RepoWithPath" where
  "resolved_repo rootPath path repo =
     (let name = resolved_name repo;
          dirPath = ReplaceAll path (CHR ''.'') (CHR ''/'')
      in \<lparr>Repo = repo, Path = path, FullPath = filepath_Join [rootPath, dirPath, name],
          RName = name\<rparr>)"

fun GetRepos_repos :: "string \<Rightarrow> string \<Rightarrow> string \<Rightarrow> Repo list \<Rightarrow> RepoWithPath list" where
  "GetRepos_repos rootPath pathFilter path [] = []"
| "GetRepos_repos rootPath pathFilter path (repo # repos) =
     (if repo_skipped pathFilter path (resolved_name repo)
      then GetRepos_repos rootPath pathFilter path repos
      else resolved_repo rootPath path repo # GetRepos_repos rootPath pathFilter path repos)"

fun GetRepos_paths :: "string \<Rightarrow> string \<Rightarrow> (string \<times> Repo list) list \<Rightarrow> RepoWithPath list" where
  "GetRepos_paths rootPath pathFilter [] = []"
| "GetRepos_paths rootPath pathFilter ((path, repos) # rest) =
     (if path_skipped pathFilter path then GetRepos_paths rootPath pathFilter rest
      else GetRepos_repos rootPath pathFilter path repos @ GetRepos_paths rootPath pathFilter rest)"

text \<open>\<^verbatim>\<open>Account.GetRepos\<close>; \<open>ks\<close> is the order in which the paths are visited.\<close>

definition GetRepos :: "Account \<Rightarrow> string \<Rightarrow> string list \<Rightarrow> string \<Rightarrow> RepoWithPath list" where
  "GetRepos a home ks pathFilter =
     GetRepos_paths (ExpandPath home (Root a)) pathFilter (entries (Repos a) ks)"

subsection \<open>Completion candidates\<close>

text \<open>
  \<^verbatim>\<open>Account.RepoPaths\<close>. The state of its loops is the list \<^verbatim>\<open>paths\<close> and the set of
  keys of \<^verbatim>\<open>seen\<close>.
\<close>

definition add_path :: "string \<Rightarrow> string list \<times> string set \<Rightarrow> string list \<times> string set" where
  "add_path p st = (if p \<notin> snd st then (fst st @ [p], insert p (snd st)) else st)"

fun RepoPaths_repos :: "string \<Rightarrow> Repo list \<Rightarrow> string list \<times> string set \<Rightarrow> string list \<times> string set" where
  "RepoPaths_repos path [] st = st"
| "RepoPaths_repos path (repo # repos) st =
     RepoPaths_repos path repos (add_path (path @ ''.'' @ resolved_name repo) st)"

fun RepoPaths_paths :: "(string \<times> Repo list) list \<Rightarrow> string list \<times> string set \<Rightarrow> string list \<times> string set" where
  "RepoPaths_paths [] st = st"
| "RepoPaths_paths ((path, repos) # rest) st =
     RepoPaths_paths rest (RepoPaths_repos path repos (add_path path st))"

definition RepoPaths :: "Account \<Rightarrow> string list \<Rightarrow> string list" where
  "RepoPaths a ks = fst (RepoPaths_paths (entries (Repos a) ks) ([], {}))"

text \<open>The invariant of these loops: \<^verbatim>\<open>seen\<close> holds the elements of \<^verbatim>\<open>paths\<close>, each listed once.\<close>

definition paths_inv :: "string list \<times> string set \<Rightarrow> bool" where
  "paths_inv st = (distinct (fst st) \<and> snd st = set (fst st))"

text \<open>
  The lines the hidden command \<^verbatim>\<open>__complete-path\<close> prints (internal/commands/complete.go):
  the result of \<^verbatim>\<open>RepoPaths\<close> after \<^verbatim>\<open>sort.Strings\<close>, restricted to the given prefix.
\<close>

definition completePath :: "Account \<Rightarrow> string list \<Rightarrow> string \<Rightarrow> string list" where
  "completePath a ks pre =
     filter (\<lambda>path. pre = [] \<or> HasPrefix path pre) (sort (RepoPaths a ks))"

section \<open>Properties\<close>

subsection \<open>Facts about the string functions\<close>

lemma TrimSuffix_append [simp]: "TrimSuffix (stem @ suf) suf = stem"
  by (simp add: TrimSuffix_def suffix_def)

lemma Split_not_Nil [simp]: "Split s sep \<noteq> []"
  by (induction s) (auto split: list.splits)

lemma Split_append_sep: "Split (a @ sep # b) sep = Split a sep @ Split b sep"
  by (induction a) (auto split: list.splits)

lemma Split_no_sep: "sep \<notin> set s \<Longrightarrow> Split s sep = [s]"
  by (induction s) auto

subsection \<open>Name derivation\<close>

lemma Split_snoc_sep: "Split (s @ [sep]) sep = Split s sep @ [[]]"
  using Split_append_sep [of s sep "[]"] by simp

lemma segs_trailing:
  "set t \<subseteq> {sep} \<Longrightarrow>
     filter (\<lambda>s. s \<noteq> []) (Split (s @ t) sep) = filter (\<lambda>s. s \<noteq> []) (Split s sep)"
proof (induction t arbitrary: s)
  case Nil
  then show ?case by simp
next
  case (Cons c t)
  then have c: "c = sep" and t: "set t \<subseteq> {sep}" by auto
  have "filter (\<lambda>s. s \<noteq> []) (Split ((s @ [sep]) @ t) sep)
      = filter (\<lambda>s. s \<noteq> []) (Split (s @ [sep]) sep)"
    using Cons.IH [OF t] by blast
  then show ?case using c by (simp add: Split_snoc_sep)
qed

lemma last_segs_no_trailing:
  assumes "s \<noteq> []" and "last s \<noteq> sep"
  shows "filter (\<lambda>s. s \<noteq> []) (Split s sep) \<noteq> []
       \<and> last (filter (\<lambda>s. s \<noteq> []) (Split s sep)) = rev (takeWhile (\<lambda>c. c \<noteq> sep) (rev s))"
proof -
  define seg where "seg = rev (takeWhile (\<lambda>c. c \<noteq> sep) (rev s))"
  define pre where "pre = rev (dropWhile (\<lambda>c. c \<noteq> sep) (rev s))"
  have "pre @ seg = rev (takeWhile (\<lambda>c. c \<noteq> sep) (rev s) @ dropWhile (\<lambda>c. c \<noteq> sep) (rev s))"
    unfolding pre_def seg_def by (simp only: rev_append)
  also have "\<dots> = rev (rev s)" by (simp only: takeWhile_dropWhile_id)
  also have "\<dots> = s" by simp
  finally have s: "s = pre @ seg" by (rule sym)
  have "hd (rev s) \<noteq> sep" using assms by (simp add: hd_rev)
  then have ne: "seg \<noteq> []" using assms(1) unfolding seg_def by (cases "rev s") auto
  have ns: "sep \<notin> set seg" unfolding seg_def by (auto dest: set_takeWhileD)
  have "filter (\<lambda>s. s \<noteq> []) (Split s sep) \<noteq> []
       \<and> last (filter (\<lambda>s. s \<noteq> []) (Split s sep)) = seg"
  proof (cases "pre = []")
    case True
    then have "s = seg" using s by simp
    then have "Split s sep = [seg]" using ns Split_no_sep [of sep seg] by simp
    then show ?thesis using ne by simp
  next
    case False
    then have d: "dropWhile (\<lambda>c. c \<noteq> sep) (rev s) \<noteq> []" unfolding pre_def by simp
    have "hd (dropWhile (\<lambda>c. c \<noteq> sep) (rev s)) = sep"
      using d hd_dropWhile [of "\<lambda>c. c \<noteq> sep" "rev s"] by blast
    then have "last pre = sep" using d unfolding pre_def by (simp add: last_rev)
    then have "pre = butlast pre @ [sep]" using False append_butlast_last_id [of pre] by simp
    then obtain q where q: "pre = q @ [sep]" by blast
    have "s = q @ sep # seg" using s q by simp
    then have "Split s sep = Split (q @ sep # seg) sep" by simp
    also have "\<dots> = Split q sep @ [seg]"
      using ns by (simp add: Split_append_sep Split_no_sep)
    finally show ?thesis using ne by simp
  qed
  then show ?thesis unfolding seg_def .
qed

lemma Base_segments:
  "Base url =
     (if url = [] then ''.''
      else case filter (\<lambda>s. s \<noteq> []) (Split url (CHR ''/'')) of
             [] \<Rightarrow> ''/''
           | seg # segs \<Rightarrow> last (seg # segs))"
proof (cases "url = []")
  case True
  then show ?thesis by (simp add: Base_def)
next
  case False
  define d where "d = dropWhile (\<lambda>c. c = CHR ''/'') (rev url)"
  define t where "t = takeWhile (\<lambda>c. c = CHR ''/'') (rev url)"
  have "rev url = t @ d" unfolding d_def t_def by simp
  then have "rev (rev url) = rev (t @ d)" by simp
  then have u: "url = rev d @ rev t" by simp
  have t: "set (rev t) \<subseteq> {CHR ''/''}" unfolding t_def by (auto dest: set_takeWhileD)
  have segs: "filter (\<lambda>s. s \<noteq> []) (Split url (CHR ''/''))
            = filter (\<lambda>s. s \<noteq> []) (Split (rev d) (CHR ''/''))"
    using segs_trailing [OF t, of "rev d"] u by simp
  have B: "Base url = (let elem = rev (takeWhile (\<lambda>c. c \<noteq> CHR ''/'') (rev (rev d)))
                       in if elem = [] then ''/'' else elem)"
    using False unfolding Base_def d_def Let_def by simp
  show ?thesis
  proof (cases "d = []")
    case True
    have "Base url = ''/''" unfolding B True by simp
    moreover have "filter (\<lambda>s. s \<noteq> []) (Split url (CHR ''/'')) = []"
      unfolding segs True by simp
    ultimately show ?thesis using False by simp
  next
    case ne: False
    have "hd d \<noteq> CHR ''/''"
      using ne hd_dropWhile [of "\<lambda>c. c = CHR ''/''" "rev url"] unfolding d_def by blast
    then have l: "last (rev d) \<noteq> CHR ''/''" using ne by (simp add: last_rev)
    have ne': "rev d \<noteq> []" using ne by simp
    from last_segs_no_trailing [OF ne' l]
    have a: "filter (\<lambda>s. s \<noteq> []) (Split (rev d) (CHR ''/'')) \<noteq> []"
      and b: "last (filter (\<lambda>s. s \<noteq> []) (Split (rev d) (CHR ''/'')))
              = rev (takeWhile (\<lambda>c. c \<noteq> CHR ''/'') (rev (rev d)))" by blast+
    have "last (filter (\<lambda>s. s \<noteq> []) (Split (rev d) (CHR ''/'')))
          \<in> set (filter (\<lambda>s. s \<noteq> []) (Split (rev d) (CHR ''/'')))"
      using a by (rule last_in_set)
    then have c: "rev (takeWhile (\<lambda>c. c \<noteq> CHR ''/'') (rev (rev d))) \<noteq> []"
      unfolding b by simp
    have "Base url = rev (takeWhile (\<lambda>c. c \<noteq> CHR ''/'') (rev (rev d)))"
      unfolding B Let_def using c by simp
    then have "Base url = last (filter (\<lambda>s. s \<noteq> []) (Split url (CHR ''/'')))"
      unfolding segs b .
    moreover obtain seg segs' where "filter (\<lambda>s. s \<noteq> []) (Split url (CHR ''/'')) = seg # segs'"
      using a unfolding segs by (cases "filter (\<lambda>s. s \<noteq> []) (Split (rev d) (CHR ''/''))") auto
    ultimately show ?thesis using False by simp
  qed
qed

lemma TrimSuffix_no_suffix: "\<forall>stem. s \<noteq> stem @ suf \<Longrightarrow> TrimSuffix s suf = s"
  by (auto simp: TrimSuffix_def suffix_def)

text \<open>
  Claim C6, as stated, says that without an explicit name every descriptor resolves to the
  last path segment of its URL with \<^verbatim>\<open>.git\<close> removed. A descriptor with the empty URL
  (what the parser builds when the \<^verbatim>\<open>url\<close> field is missing) resolves to \<^verbatim>\<open>.\<close>, and
  one with the URL \<^verbatim>\<open>/\<close> resolves to \<^verbatim>\<open>/\<close>; neither name is a segment of the URL,
  whose slash-separated segments are all empty.
\<close>

theorem resolved_name_segments_counterexample:
  "resolved_name \<lparr>URL = [], Name = []\<rparr> = ''.''
   \<and> Split [] (CHR ''/'') = [[]]
   \<and> ''.'' \<notin> set (Split [] (CHR ''/''))
   \<and> resolved_name \<lparr>URL = ''/'', Name = []\<rparr> = ''/''
   \<and> Split ''/'' (CHR ''/'') = [[], []]
   \<and> ''/'' \<notin> set (Split ''/'' (CHR ''/''))"
  by (simp add: resolved_name_def RepoName_def Base_def TrimSuffix_def suffix_to_prefix)

text \<open>
  Claim C6, amended. The resolved name of a repository descriptor is its explicit name when
  one is given (the \<^verbatim>\<open>name\<close> field is not empty). Otherwise, when the URL has a
  non-empty slash-separated segment, it is the last such segment (trailing slashes are
  passed over) without its suffix \<^verbatim>\<open>.git\<close> if it ends with it, and that segment itself if
  it does not; the empty URL resolves to \<^verbatim>\<open>.\<close> and a URL made of slashes only to
  \<^verbatim>\<open>/\<close>. The URL \<^verbatim>\<open>git@github.com:org/my-repo.git\<close> without a name resolves to
  \<^verbatim>\<open>my-repo\<close>, and a descriptor named \<^verbatim>\<open>custom\<close> resolves to \<^verbatim>\<open>custom\<close> whatever its
  URL.
\<close>

theorem resolved_name_by_segments:
  "(Name r \<noteq> [] \<longrightarrow> resolved_name r = Name r)
   \<and> (Name r = [] \<and> filter (\<lambda>s. s \<noteq> []) (Split (URL r) (CHR ''/'')) = seg # segs \<longrightarrow>
        (last (seg # segs) = stem @ ''.git'' \<longrightarrow> resolved_name r = stem)
        \<and> ((\<forall>stem'. last (seg # segs) \<noteq> stem' @ ''.git'') \<longrightarrow>
             resolved_name r = last (seg # segs)))
   \<and> (Name r = [] \<and> URL r = [] \<longrightarrow> resolved_name r = ''.'')
   \<and> (Name r = [] \<and> URL r \<noteq> [] \<and> filter (\<lambda>s. s \<noteq> []) (Split (URL r) (CHR ''/'')) = []
        \<longrightarrow> resolved_name r = ''/'')
   \<and> resolved_name \<lparr>URL = ''git@github.com:org/my-repo.git'', Name = []\<rparr> = ''my-repo''
   \<and> resolved_name \<lparr>URL = u, Name = ''custom''\<rparr> = ''custom''"
proof -
  have 1: "Name r \<noteq> [] \<longrightarrow> resolved_name r = Name r"
    by (simp add: resolved_name_def)
  have 2: "(last (seg # segs) = stem @ ''.git'' \<longrightarrow> resolved_name r = stem)
        \<and> ((\<forall>stem'. last (seg # segs) \<noteq> stem' @ ''.git'') \<longrightarrow>
             resolved_name r = last (seg # segs))"
    if h: "Name r = [] \<and> filter (\<lambda>s. s \<noteq> []) (Split (URL r) (CHR ''/'')) = seg # segs"
  proof -
    have "URL r \<noteq> []" using h by auto
    then have "Base (URL r) = last (seg # segs)"
      using h by (simp add: Base_segments)
    then have "resolved_name r = TrimSuffix (last (seg # segs)) ''.git''"
      using h by (simp add: resolved_name_def RepoName_def)
    then show ?thesis
      using TrimSuffix_append [of stem "''.git''"] TrimSuffix_no_suffix [of "last (seg # segs)" "''.git''"]
      by auto
  qed
  have dot: "\<forall>stem'. ''.'' \<noteq> stem' @ ''.git''" by auto
  have slash: "\<forall>stem'. ''/'' \<noteq> stem' @ ''.git''" by auto
  have 3: "Name r = [] \<and> URL r = [] \<longrightarrow> resolved_name r = ''.''"
    using TrimSuffix_no_suffix [OF dot] by (simp add: resolved_name_def RepoName_def Base_segments)
  have 4: "Name r = [] \<and> URL r \<noteq> [] \<and> filter (\<lambda>s. s \<noteq> []) (Split (URL r) (CHR ''/'')) = []
        \<longrightarrow> resolved_name r = ''/''"
    using TrimSuffix_no_suffix [OF slash] by (simp add: resolved_name_def RepoName_def Base_segments)
  have 5: "resolved_name \<lparr>URL = ''git@github.com:org/my-repo.git'', Name = []\<rparr> = ''my-repo''"
    by code_simp
  have 6: "resolved_name \<lparr>URL = u, Name = ''custom''\<rparr> = ''custom''"
    by (simp add: resolved_name_def)
  show ?thesis using 1 2 3 4 5 6 by blast
qed

theorem resolved_name_by_segments_witness:
  "filter (\<lambda>s. s \<noteq> []) (Split ''https://github.com/user/repo.git'' (CHR ''/''))
     = [''https:'', ''github.com'', ''user'', ''repo.git'']
   \<and> resolved_name \<lparr>URL = ''https://github.com/user/repo.git'', Name = []\<rparr> = ''repo''
   \<and> filter (\<lambda>s. s \<noteq> []) (Split ''https://example.org/tools/'' (CHR ''/''))
     = [''https:'', ''example.org'', ''tools'']
   \<and> resolved_name \<lparr>URL = ''https://example.org/tools/'', Name = []\<rparr> = ''tools''
   \<and> resolved_name \<lparr>URL = [], Name = []\<rparr> = ''.''
   \<and> resolved_name \<lparr>URL = ''https://github.com/user/repo.git'', Name = ''custom''\<rparr> = ''custom''"
proof -
  let ?r1 = "\<lparr>URL = ''https://github.com/user/repo.git'', Name = []\<rparr>"
  let ?r2 = "\<lparr>URL = ''https://example.org/tools/'', Name = []\<rparr>"
  let ?r3 = "\<lparr>URL = [], Name = []\<rparr>"
  let ?r4 = "\<lparr>URL = ''https://github.com/user/repo.git'', Name = ''custom''\<rparr>"
  have s1: "filter (\<lambda>s. s \<noteq> []) (Split ''https://github.com/user/repo.git'' (CHR ''/''))
     = [''https:'', ''github.com'', ''user'', ''repo.git'']" by simp
  have s2: "filter (\<lambda>s. s \<noteq> []) (Split ''https://example.org/tools/'' (CHR ''/''))
     = [''https:'', ''example.org'', ''tools'']" by simp
  have l1: "last [''https:'', ''github.com'', ''user'', ''repo.git''] = ''repo'' @ ''.git''" by simp
  have "\<not> suffix ''.git'' ''tools''" by (simp add: suffix_to_prefix)
  then have l2: "\<forall>stem'. last [''https:'', ''example.org'', ''tools''] \<noteq> stem' @ ''.git''"
    by (auto simp: suffix_def)
  have a: "resolved_name ?r1 = ''repo''"
    using resolved_name_by_segments [of ?r1 "''https:''" "[''github.com'', ''user'', ''repo.git'']" "''repo''"]
      s1 l1 by simp
  have b: "resolved_name ?r2 = last [''https:'', ''example.org'', ''tools'']"
    using resolved_name_by_segments [of ?r2 "''https:''" "[''example.org'', ''tools'']"]
      s2 l2 by simp
  have c: "resolved_name ?r3 = ''.''"
    using resolved_name_by_segments [of ?r3] by simp
  have d: "resolved_name ?r4 = ''custom''"
    using resolved_name_by_segments [of ?r4] by simp
  show ?thesis using s1 s2 a b c d by simp
qed

subsection \<open>Facts about maps and their traversal\<close>

lemma entries_Nil [simp]: "entries m [] = []"
  by (simp add: entries_def List.map_filter_simps)

lemma entries_Cons:
  "entries m (k # ks) = (case m k of None \<Rightarrow> entries m ks | Some v \<Rightarrow> (k, v) # entries m ks)"
  by (simp add: entries_def List.map_filter_simps split: option.splits)

lemma set_entries: "set (entries m ks) = {(k, v). k \<in> set ks \<and> m k = Some v}"
  by (induction ks) (auto simp: entries_Cons split: option.splits)

lemma entries_concat:
  "entries m ks = concat (map (\<lambda>k. case m k of None \<Rightarrow> [] | Some v \<Rightarrow> [(k, v)]) ks)"
  by (induction ks) (auto simp: entries_Cons split: option.splits)

lemma range_order_mset: "range_order m ks1 \<Longrightarrow> range_order m ks2 \<Longrightarrow> mset ks1 = mset ks2"
  using set_eq_iff_mset_eq_distinct [of ks1 ks2] by (simp add: range_order_def)

lemma mset_entries: "range_order m ks1 \<Longrightarrow> range_order m ks2 \<Longrightarrow> mset (entries m ks1) = mset (entries m ks2)"
proof -
  assume a: "range_order m ks1" "range_order m ks2"
  have "mset (entries m ks) = (\<Sum>k\<in>#mset ks. mset (case m k of None \<Rightarrow> [] | Some v \<Rightarrow> [(k, v)]))" for ks
    by (induction ks) (auto simp: entries_Cons split: option.splits)
  then show ?thesis using range_order_mset [OF a] by simp
qed

subsection \<open>The resolver\<close>

lemma GetRepos_repos_eq:
  "GetRepos_repos rootPath pathFilter path repos =
     map (resolved_repo rootPath path)
       (filter (\<lambda>repo. \<not> repo_skipped pathFilter path (resolved_name repo)) repos)"
  by (induction repos) auto

lemma GetRepos_paths_eq:
  "GetRepos_paths rootPath pathFilter es =
     concat (map (\<lambda>(path, repos). if path_skipped pathFilter path then []
                    else GetRepos_repos rootPath pathFilter path repos) es)"
  by (induction es) auto

lemma mset_GetRepos_paths:
  "mset (GetRepos_paths rootPath pathFilter es) =
     (\<Sum>(path, repos)\<in>#mset es. mset (if path_skipped pathFilter path then []
                    else GetRepos_repos rootPath pathFilter path repos))"
  by (induction es) auto

lemma Repo_resolved_repo [simp]: "Repo (resolved_repo rootPath path repo) = repo"
  and Path_resolved_repo [simp]: "Path (resolved_repo rootPath path repo) = path"
  and RName_resolved_repo [simp]: "RName (resolved_repo rootPath path repo) = resolved_name repo"
  by (simp_all add: resolved_repo_def Let_def)

lemma set_GetRepos_paths:
  "set (GetRepos_paths rootPath pathFilter es) =
     {resolved_repo rootPath path repo | path repos repo.
        (path, repos) \<in> set es \<and> \<not> path_skipped pathFilter path \<and> repo \<in> set repos \<and>
        \<not> repo_skipped pathFilter path (resolved_name repo)}"
  unfolding GetRepos_paths_eq GetRepos_repos_eq
  by (auto split: if_splits)

lemma resolved_repo_inj [simp]:
  "resolved_repo root p r = resolved_repo root' p' r' \<longleftrightarrow> p = p' \<and> r = r' \<and> filepath_Join [root, ReplaceAll p (CHR ''.'') (CHR ''/''), resolved_name r] = filepath_Join [root', ReplaceAll p' (CHR ''.'') (CHR ''/''), resolved_name r']"
  by (auto simp: resolved_repo_def Let_def)

lemma GetRepos_kept_iff:
  assumes "range_order (Repos a) ks" and "Repos a P = Some rs" and "r \<in> set rs"
  shows "resolved_repo (ExpandPath home (Root a)) P r \<in> set (GetRepos a home ks pathFilter) \<longleftrightarrow>
         \<not> path_skipped pathFilter P \<and> \<not> repo_skipped pathFilter P (resolved_name r)"
proof -
  have "P \<in> set ks" using assms by (auto simp: range_order_def)
  then have "(P, rs) \<in> set (entries (Repos a) ks)" using assms by (simp add: set_entries)
  then show ?thesis
    using assms(3) unfolding GetRepos_def set_GetRepos_paths by (auto simp: set_entries)
qed

lemma Split_parts_no_sep: "p \<in> set (Split s sep) \<Longrightarrow> sep \<notin> set p"
  by (induction s arbitrary: p) (auto split: if_splits list.splits)

lemma Join_Split: "Join (Split s sep) sep = s"
proof (induction s)
  case Nil
  then show ?case by simp
next
  case (Cons c cs)
  obtain p ps where ps: "Split cs sep = p # ps"
    by (cases "Split cs sep") auto
  show ?case
    using Cons ps by (cases ps) auto
qed

lemma Split_Join:
  "xs \<noteq> [] \<Longrightarrow> \<forall>x\<in>set xs. sep \<notin> set x \<Longrightarrow> Split (Join xs sep) sep = xs"
proof (induction xs sep rule: Join.induct)
  case (1 sep)
  then show ?case by simp
next
  case (2 p sep)
  then show ?case by (simp add: Split_no_sep)
next
  case (3 p q ps sep)
  then show ?case by (simp add: Split_append_sep Split_no_sep)
qed

lemma Split_dotted: "1 < length (Split s sep) \<Longrightarrow> sep \<in> set s"
  using Split_no_sep [of sep s] by (cases "sep \<in> set s") auto

lemma repo_skipped_deep:
  assumes deep: "length (Split pathFilter (CHR ''.'')) > length (Split path (CHR ''.'')) + 1"
  shows "repo_skipped pathFilter path name \<longleftrightarrow> \<not> HasPrefix (path @ ''.'' @ name) pathFilter"
proof
  assume "repo_skipped pathFilter path name"
  then show "\<not> HasPrefix (path @ ''.'' @ name) pathFilter"
    by (simp add: repo_skipped_def Let_def)
next
  assume np: "\<not> HasPrefix (path @ ''.'' @ name) pathFilter"
  let ?parts = "Split pathFilter (CHR ''.'')"
  have ne: "pathFilter \<noteq> []" using np by (auto simp: HasPrefix_def)
  have dot: "Contains pathFilter (CHR ''.'')"
    using deep Split_dotted [of pathFilter "CHR ''.''"] by (simp add: Contains_def)
  have neq: "path @ ''.'' @ name \<noteq> pathFilter" using np by (auto simp: HasPrefix_def)
  have "Join (take (length ?parts - 1) ?parts) (CHR ''.'') \<noteq> path"
  proof
    assume eq: "Join (take (length ?parts - 1) ?parts) (CHR ''.'') = path"
    have "take (length ?parts - 1) ?parts \<noteq> []" using deep by auto
    moreover have "\<forall>x\<in>set (take (length ?parts - 1) ?parts). CHR ''.'' \<notin> set x"
      using Split_parts_no_sep by (meson in_set_takeD)
    ultimately have "Split path (CHR ''.'') = take (length ?parts - 1) ?parts"
      using Split_Join eq by metis
    then have "length (Split path (CHR ''.'')) = length ?parts - 1" by simp
    then show False using deep by simp
  qed
  then show "repo_skipped pathFilter path name"
    using ne dot neq np deep by (simp add: repo_skipped_def Let_def)
qed

lemma repo_kept_extension:
  "HasPrefix (path @ ''.'' @ name) pathFilter \<Longrightarrow> \<not> repo_skipped pathFilter path name"
  by (simp add: repo_skipped_def Let_def)

lemma repo_kept_no_dot:
  "\<not> Contains pathFilter (CHR ''.'') \<Longrightarrow> \<not> repo_skipped pathFilter path name"
  by (simp add: repo_skipped_def Let_def)

lemmas eval_defs = GetRepos_def entries_Cons path_skipped_def repo_skipped_def HasPrefix_def Contains_def
      resolved_name_def RepoName_def Base_def TrimSuffix_def suffix_to_prefix ExpandPath_def resolved_repo_def
      filepath_Join_def Clean_def clean_step_def ReplaceAll_def Let_def range_order_def

text \<open>
  Claim C3. For the account whose paths are \<^verbatim>\<open>work.backend\<close> with the repositories
  \<^verbatim>\<open>api\<close> and \<^verbatim>\<open>worker\<close> and \<^verbatim>\<open>personal\<close> with \<^verbatim>\<open>dotfiles\<close>, the claim expects the
  filter \<^verbatim>\<open>work.backend.api\<close> to select the repository \<^verbatim>\<open>api\<close> alone. The function
  returns \<^verbatim>\<open>api\<close> and \<^verbatim>\<open>worker\<close>, in either order of the map: the test
  \<^verbatim>\<open>len(parts) > len(strings.Split(path, "."))+1\<close> is false when the filter is exactly
  one segment longer than the path, so no repository of that path is skipped.
\<close>

theorem GetRepos_single_repo_filter:
  "GetRepos
     \<lparr>Default = True, Root = ''/srv'',
      Repos = [''work.backend'' \<mapsto> [\<lparr>URL = ''git@github.com:company/api.git'', Name = []\<rparr>,
                                    \<lparr>URL = ''git@github.com:company/worker.git'', Name = []\<rparr>],
               ''personal'' \<mapsto> [\<lparr>URL = ''git@github.com:me/dotfiles.git'', Name = []\<rparr>]]\<rparr>
     ''/home/u'' [''work.backend'', ''personal''] ''work.backend.api''
   = [\<lparr>Repo = \<lparr>URL = ''git@github.com:company/api.git'', Name = []\<rparr>, Path = ''work.backend'',
        FullPath = ''/srv/work/backend/api'', RName = ''api''\<rparr>,
      \<lparr>Repo = \<lparr>URL = ''git@github.com:company/worker.git'', Name = []\<rparr>, Path = ''work.backend'',
        FullPath = ''/srv/work/backend/worker'', RName = ''worker''\<rparr>]
   \<and> GetRepos
     \<lparr>Default = True, Root = ''/srv'',
      Repos = [''work.backend'' \<mapsto> [\<lparr>URL = ''git@github.com:company/api.git'', Name = []\<rparr>,
                                    \<lparr>URL = ''git@github.com:company/worker.git'', Name = []\<rparr>],
               ''personal'' \<mapsto> [\<lparr>URL = ''git@github.com:me/dotfiles.git'', Name = []\<rparr>]]\<rparr>
     ''/home/u'' [''personal'', ''work.backend''] ''work.backend.api''
   = [\<lparr>Repo = \<lparr>URL = ''git@github.com:company/api.git'', Name = []\<rparr>, Path = ''work.backend'',
        FullPath = ''/srv/work/backend/api'', RName = ''api''\<rparr>,
      \<lparr>Repo = \<lparr>URL = ''git@github.com:company/worker.git'', Name = []\<rparr>, Path = ''work.backend'',
        FullPath = ''/srv/work/backend/worker'', RName = ''worker''\<rparr>]"
  by code_simp

text \<open>
  Claim C4, as stated, says that for a path \<open>P\<close> that is a prefix of the filter a repository
  is kept exactly when \<open>P.name\<close> is equal to, or a prefix of, the filter. With the filter
  equal to the path \<^verbatim>\<open>work.backend\<close> the repository \<^verbatim>\<open>api\<close> is kept although
  \<^verbatim>\<open>work.backend.api\<close> is neither; with the filter \<^verbatim>\<open>work.backend.api.v2.docs\<close> it is
  dropped although \<^verbatim>\<open>work.backend.api\<close> is a prefix of the filter.
\<close>

theorem GetRepos_keeps_counterexample:
  "HasPrefix ''work.backend'' ''work.backend''
   \<and> range_order (Repos \<lparr>Default = True, Root = ''/srv'',
          Repos = [''work.backend'' \<mapsto> [\<lparr>URL = ''git@github.com:company/api.git'', Name = []\<rparr>]]\<rparr>)
        [''work.backend'']
   \<and> resolved_repo ''/srv'' ''work.backend'' \<lparr>URL = ''git@github.com:company/api.git'', Name = []\<rparr>
       \<in> set (GetRepos \<lparr>Default = True, Root = ''/srv'',
                  Repos = [''work.backend'' \<mapsto> [\<lparr>URL = ''git@github.com:company/api.git'', Name = []\<rparr>]]\<rparr>
                ''/home/u'' [''work.backend''] ''work.backend'')
   \<and> resolved_name \<lparr>URL = ''git@github.com:company/api.git'', Name = []\<rparr> = ''api''
   \<and> \<not> HasPrefix ''work.backend'' (''work.backend'' @ ''.'' @ ''api'')
   \<and> ''work.backend'' @ ''.'' @ ''api'' \<noteq> ''work.backend''
   \<and> HasPrefix ''work.backend.api.v2.docs'' ''work.backend''
   \<and> HasPrefix ''work.backend.api.v2.docs'' (''work.backend'' @ ''.'' @ ''api'')
   \<and> GetRepos \<lparr>Default = True, Root = ''/srv'',
                  Repos = [''work.backend'' \<mapsto> [\<lparr>URL = ''git@github.com:company/api.git'', Name = []\<rparr>]]\<rparr>
                ''/home/u'' [''work.backend''] ''work.backend.api.v2.docs'' = []"
  by (simp add: eval_defs)

text \<open>
  Claim C4, amended. For a non-empty filter and a path \<open>P\<close> of the account that is a prefix
  of the filter, a repository at \<open>P\<close> is kept whenever the filter is equal to, or a prefix
  of, \<open>P.name\<close> (the test of the code runs from the filter to the qualified name); and
  when the filter has more than one segment more than \<open>P\<close>, a repository is kept exactly
  when the filter is a prefix of \<open>P.name\<close>, so that every repository whose qualified name
  diverges from the filter is rejected. Nothing is said of a filter exactly one segment
  longer than \<open>P\<close> that names another repository.
\<close>

theorem GetRepos_keeps:
  assumes "range_order (Repos a) ks" and "Repos a P = Some rs" and "r \<in> set rs"
    and "pathFilter \<noteq> []" and "HasPrefix pathFilter P"
  shows "(HasPrefix (P @ ''.'' @ resolved_name r) pathFilter \<longrightarrow>
            resolved_repo (ExpandPath home (Root a)) P r \<in> set (GetRepos a home ks pathFilter))
       \<and> (length (Split pathFilter (CHR ''.'')) > length (Split P (CHR ''.'')) + 1 \<longrightarrow>
            (resolved_repo (ExpandPath home (Root a)) P r \<in> set (GetRepos a home ks pathFilter)
               \<longleftrightarrow> HasPrefix (P @ ''.'' @ resolved_name r) pathFilter))"
proof -
  have "\<not> path_skipped pathFilter P"
    using assms(5) by (simp add: path_skipped_def)
  then have "resolved_repo (ExpandPath home (Root a)) P r \<in> set (GetRepos a home ks pathFilter)
      \<longleftrightarrow> \<not> repo_skipped pathFilter P (resolved_name r)"
    using GetRepos_kept_iff [OF assms(1-3)] by simp
  then show ?thesis
    using repo_skipped_deep repo_kept_extension by auto
qed

theorem GetRepos_keeps_witness:
  "range_order (Repos \<lparr>Default = False, Root = ''/srv'',
          Repos = [''libs'' \<mapsto> [\<lparr>URL = ''https://example.org/x.git'', Name = ''net.http''\<rparr>]]\<rparr>) [''libs'']
   \<and> HasPrefix ''libs.net.http'' ''libs''
   \<and> length (Split ''libs'' (CHR ''.'')) + 1 < length (Split ''libs.net.http'' (CHR ''.''))
   \<and> resolved_repo ''/srv'' ''libs'' \<lparr>URL = ''https://example.org/x.git'', Name = ''net.http''\<rparr>
       \<in> set (GetRepos \<lparr>Default = False, Root = ''/srv'',
          Repos = [''libs'' \<mapsto> [\<lparr>URL = ''https://example.org/x.git'', Name = ''net.http''\<rparr>]]\<rparr>
            ''/home/u'' [''libs''] ''libs.net.http'')
   \<and> resolved_repo ''/srv'' ''libs'' \<lparr>URL = ''https://example.org/x.git'', Name = ''net.http''\<rparr>
       \<notin> set (GetRepos \<lparr>Default = False, Root = ''/srv'',
          Repos = [''libs'' \<mapsto> [\<lparr>URL = ''https://example.org/x.git'', Name = ''net.http''\<rparr>]]\<rparr>
            ''/home/u'' [''libs''] ''libs.net.smtp'')"
proof -
  let ?r = "\<lparr>URL = ''https://example.org/x.git'', Name = ''net.http''\<rparr>"
  let ?a = "\<lparr>Default = False, Root = ''/srv'', Repos = [''libs'' \<mapsto> [?r]]\<rparr>"
  have h1: "range_order (Repos ?a) [''libs'']" by (simp add: range_order_def)
  have h2: "Repos ?a ''libs'' = Some [?r]" by simp
  have h3: "?r \<in> set [?r]" by simp
  have h4: "''libs.net.http'' \<noteq> []" "''libs.net.smtp'' \<noteq> []" by simp_all
  have h5: "HasPrefix ''libs.net.http'' ''libs''" "HasPrefix ''libs.net.smtp'' ''libs''"
    by (simp_all add: HasPrefix_def)
  have e: "ExpandPath ''/home/u'' (Root ?a) = ''/srv''" by (simp add: ExpandPath_def HasPrefix_def)
  show ?thesis
    using GetRepos_keeps [OF h1 h2 h3 h4(1) h5(1), of "''/home/u''"]
      GetRepos_keeps [OF h1 h2 h3 h4(2) h5(2), of "''/home/u''"] h1 e
    by (simp add: HasPrefix_def resolved_name_def)
qed

text \<open>
  Claim C7. When the filter is a prefix of no path of the account and no path is a prefix of
  the filter, the resolver returns the empty list; its result is a list, with no error value.
\<close>

theorem GetRepos_no_match:
  assumes "\<forall>P\<in>dom (Repos a). \<not> HasPrefix P pathFilter \<and> \<not> HasPrefix pathFilter P"
  shows "GetRepos a home ks pathFilter = []"
proof -
  have ne: "pathFilter \<noteq> []" if "P \<in> dom (Repos a)" for P
    using assms that by (auto simp: HasPrefix_def)
  have "path_skipped pathFilter path" if "(path, repos) \<in> set (entries (Repos a) ks)" for path repos
    using that assms ne by (auto simp: set_entries path_skipped_def)
  then show ?thesis
    unfolding GetRepos_def GetRepos_paths_eq by auto
qed

theorem GetRepos_no_match_witness:
  "GetRepos \<lparr>Default = True, Root = ''~/Projects'',
      Repos = [''work.backend'' \<mapsto> [\<lparr>URL = ''git@github.com:company/api.git'', Name = []\<rparr>],
               ''personal'' \<mapsto> [\<lparr>URL = ''git@github.com:me/dotfiles.git'', Name = []\<rparr>]]\<rparr>
     ''/home/u'' [''work.backend'', ''personal''] ''nonexistent'' = []"
  by (rule GetRepos_no_match) (simp add: HasPrefix_def)

text \<open>
  Claim C8, as stated, says that two invocations on the same account and filter yield the
  same list in the same order. The order of the result follows the order in which the
  \<^verbatim>\<open>range\<close> statement visits the map, which Go does not fix: on an account with the two
  paths \<^verbatim>\<open>a\<close> and \<^verbatim>\<open>b\<close> the two possible visits give different lists.
\<close>

theorem GetRepos_order_counterexample:
  "range_order (Repos \<lparr>Default = True, Root = ''/srv'',
          Repos = [''a'' \<mapsto> [\<lparr>URL = ''u/x.git'', Name = []\<rparr>], ''b'' \<mapsto> [\<lparr>URL = ''u/y.git'', Name = []\<rparr>]]\<rparr>)
      [''a'', ''b'']
   \<and> range_order (Repos \<lparr>Default = True, Root = ''/srv'',
          Repos = [''a'' \<mapsto> [\<lparr>URL = ''u/x.git'', Name = []\<rparr>], ''b'' \<mapsto> [\<lparr>URL = ''u/y.git'', Name = []\<rparr>]]\<rparr>)
      [''b'', ''a'']
   \<and> GetRepos \<lparr>Default = True, Root = ''/srv'',
          Repos = [''a'' \<mapsto> [\<lparr>URL = ''u/x.git'', Name = []\<rparr>], ''b'' \<mapsto> [\<lparr>URL = ''u/y.git'', Name = []\<rparr>]]\<rparr>
        ''/home/u'' [''a'', ''b''] []
     \<noteq> GetRepos \<lparr>Default = True, Root = ''/srv'',
          Repos = [''a'' \<mapsto> [\<lparr>URL = ''u/x.git'', Name = []\<rparr>], ''b'' \<mapsto> [\<lparr>URL = ''u/y.git'', Name = []\<rparr>]]\<rparr>
        ''/home/u'' [''b'', ''a''] []"
  by (auto simp add: eval_defs)

text \<open>
  Claim C8, amended. Two invocations of the resolver on the same account and filter yield
  the same resolved repositories with the same multiplicities: the two lists are equal up
  to the order in which the paths of the map were visited.
\<close>

theorem GetRepos_permutation:
  assumes "range_order (Repos a) ks1" and "range_order (Repos a) ks2"
  shows "mset (GetRepos a home ks1 pathFilter) = mset (GetRepos a home ks2 pathFilter)"
  unfolding GetRepos_def mset_GetRepos_paths using mset_entries [OF assms] by simp

theorem GetRepos_permutation_witness:
  "mset (GetRepos \<lparr>Default = True, Root = ''/srv'',
          Repos = [''a'' \<mapsto> [\<lparr>URL = ''u/x.git'', Name = []\<rparr>], ''b'' \<mapsto> [\<lparr>URL = ''u/y.git'', Name = []\<rparr>]]\<rparr>
        ''/home/u'' [''a'', ''b''] [])
   = mset (GetRepos \<lparr>Default = True, Root = ''/srv'',
          Repos = [''a'' \<mapsto> [\<lparr>URL = ''u/x.git'', Name = []\<rparr>], ''b'' \<mapsto> [\<lparr>URL = ''u/y.git'', Name = []\<rparr>]]\<rparr>
        ''/home/u'' [''b'', ''a''] [])"
  by (rule GetRepos_permutation) (auto simp add: range_order_def)

text \<open>
  Claim C10. For a non-empty filter the match of a path is a test on raw strings. Every
  repository returned sits at a path of which the filter is a string prefix or that is a
  string prefix of the filter, and a repository of the account is returned exactly when its
  path passes this test in one of the two directions and the repository itself is not
  skipped by the test on repositories. In particular every repository of a path that has
  the filter as a string prefix is returned; for a path that is a string prefix of the
  filter, dotted or not, a repository is returned when the filter has no dot, when the
  filter is a prefix of its qualified name, or when the filter has no more segments than
  the path. Segment boundaries play no part: the filter \<^verbatim>\<open>work\<close> selects the repository
  under the path \<^verbatim>\<open>workshop\<close>, and the dotted filter \<^verbatim>\<open>work.backend\<close> selects the
  repository under the path \<^verbatim>\<open>work.back\<close>, although in neither case the segments of
  the one are a prefix of the segments of the other; the dotted filter
  \<^verbatim>\<open>work.backend.api\<close> selects the repository \<^verbatim>\<open>api\<close> of the path \<^verbatim>\<open>work.backend\<close>.
\<close>

theorem GetRepos_string_prefix_match:
  assumes "range_order (Repos a) ks" and "pathFilter \<noteq> []"
  shows "(\<forall>x\<in>set (GetRepos a home ks pathFilter).
            HasPrefix (Path x) pathFilter \<or> HasPrefix pathFilter (Path x))
       \<and> (\<forall>P rs r. Repos a P = Some rs \<and> r \<in> set rs \<longrightarrow>
            (resolved_repo (ExpandPath home (Root a)) P r \<in> set (GetRepos a home ks pathFilter)
             \<longleftrightarrow> (HasPrefix P pathFilter \<or> HasPrefix pathFilter P)
                  \<and> \<not> repo_skipped pathFilter P (resolved_name r)))
       \<and> (\<forall>P rs r. Repos a P = Some rs \<and> r \<in> set rs \<and> HasPrefix P pathFilter \<longrightarrow>
            resolved_repo (ExpandPath home (Root a)) P r \<in> set (GetRepos a home ks pathFilter))
       \<and> (\<forall>P rs r. Repos a P = Some rs \<and> r \<in> set rs \<and> HasPrefix pathFilter P
                   \<and> \<not> Contains pathFilter (CHR ''.'') \<longrightarrow>
            resolved_repo (ExpandPath home (Root a)) P r \<in> set (GetRepos a home ks pathFilter))
       \<and> (\<forall>P rs r. Repos a P = Some rs \<and> r \<in> set rs \<and> HasPrefix pathFilter P
                   \<and> HasPrefix (P @ ''.'' @ resolved_name r) pathFilter \<longrightarrow>
            resolved_repo (ExpandPath home (Root a)) P r \<in> set (GetRepos a home ks pathFilter))
       \<and> (\<forall>P rs r. Repos a P = Some rs \<and> r \<in> set rs \<and> HasPrefix pathFilter P
                   \<and> length (Split pathFilter (CHR ''.'')) \<le> length (Split P (CHR ''.'')) \<longrightarrow>
            resolved_repo (ExpandPath home (Root a)) P r \<in> set (GetRepos a home ks pathFilter))
       \<and> GetRepos \<lparr>Default = True, Root = ''/srv'',
                    Repos = [''workshop'' \<mapsto> [\<lparr>URL = ''git@github.com:me/tools.git'', Name = []\<rparr>]]\<rparr>
            ''/home/u'' [''workshop''] ''work''
          = [\<lparr>Repo = \<lparr>URL = ''git@github.com:me/tools.git'', Name = []\<rparr>, Path = ''workshop'',
               FullPath = ''/srv/workshop/tools'', RName = ''tools''\<rparr>]
       \<and> \<not> prefix (Split ''work'' (CHR ''.'')) (Split ''workshop'' (CHR ''.''))
       \<and> GetRepos \<lparr>Default = True, Root = ''/srv'',
                    Repos = [''work.back'' \<mapsto> [\<lparr>URL = ''git@github.com:me/tools.git'', Name = []\<rparr>]]\<rparr>
            ''/home/u'' [''work.back''] ''work.backend''
          = [\<lparr>Repo = \<lparr>URL = ''git@github.com:me/tools.git'', Name = []\<rparr>, Path = ''work.back'',
               FullPath = ''/srv/work/back/tools'', RName = ''tools''\<rparr>]
       \<and> \<not> prefix (Split ''work.back'' (CHR ''.'')) (Split ''work.backend'' (CHR ''.''))
       \<and> GetRepos \<lparr>Default = True, Root = ''/srv'',
                    Repos = [''work.backend'' \<mapsto> [\<lparr>URL = ''git@github.com:company/api.git'', Name = []\<rparr>]]\<rparr>
            ''/home/u'' [''work.backend''] ''work.backend.api''
          = [\<lparr>Repo = \<lparr>URL = ''git@github.com:company/api.git'', Name = []\<rparr>, Path = ''work.backend'',
               FullPath = ''/srv/work/backend/api'', RName = ''api''\<rparr>]"
proof -
  have m: "\<not> path_skipped pathFilter P \<longleftrightarrow> HasPrefix P pathFilter \<or> HasPrefix pathFilter P" for P
    using assms(2) by (auto simp: path_skipped_def)
  have 1: "\<forall>x\<in>set (GetRepos a home ks pathFilter).
            HasPrefix (Path x) pathFilter \<or> HasPrefix pathFilter (Path x)"
    unfolding GetRepos_def set_GetRepos_paths using assms(2) by (auto simp: path_skipped_def)
  have 2: "resolved_repo (ExpandPath home (Root a)) P r \<in> set (GetRepos a home ks pathFilter)
             \<longleftrightarrow> (HasPrefix P pathFilter \<or> HasPrefix pathFilter P)
                  \<and> \<not> repo_skipped pathFilter P (resolved_name r)"
    if "Repos a P = Some rs" "r \<in> set rs" for P rs r
    using GetRepos_kept_iff [OF assms(1) that] m by simp
  have 3: "resolved_repo (ExpandPath home (Root a)) P r \<in> set (GetRepos a home ks pathFilter)"
    if "Repos a P = Some rs" "r \<in> set rs" "HasPrefix P pathFilter" for P rs r
  proof -
    have "HasPrefix (P @ ''.'' @ resolved_name r) pathFilter"
      using that(3) by (auto simp: HasPrefix_def)
    then show ?thesis
      using 2 [OF that(1,2)] that(3) repo_kept_extension by blast
  qed
  have 4: "resolved_repo (ExpandPath home (Root a)) P r \<in> set (GetRepos a home ks pathFilter)"
    if "Repos a P = Some rs" "r \<in> set rs" "HasPrefix pathFilter P" "\<not> Contains pathFilter (CHR ''.'')"
    for P rs r
    using 2 [OF that(1,2)] that(3,4) repo_kept_no_dot by blast
  have 5: "resolved_repo (ExpandPath home (Root a)) P r \<in> set (GetRepos a home ks pathFilter)"
    if "Repos a P = Some rs" "r \<in> set rs" "HasPrefix pathFilter P"
       "HasPrefix (P @ ''.'' @ resolved_name r) pathFilter" for P rs r
    using 2 [OF that(1,2)] that(3,4) repo_kept_extension by blast
  have 6: "resolved_repo (ExpandPath home (Root a)) P r \<in> set (GetRepos a home ks pathFilter)"
    if "Repos a P = Some rs" "r \<in> set rs" "HasPrefix pathFilter P"
       "length (Split pathFilter (CHR ''.'')) \<le> length (Split P (CHR ''.''))" for P rs r
  proof -
    have "\<not> repo_skipped pathFilter P (resolved_name r)"
      using that(4) by (simp add: repo_skipped_def Let_def)
    then show ?thesis using 2 [OF that(1,2)] that(3) by blast
  qed
  have 7: "GetRepos \<lparr>Default = True, Root = ''/srv'',
                    Repos = [''workshop'' \<mapsto> [\<lparr>URL = ''git@github.com:me/tools.git'', Name = []\<rparr>]]\<rparr>
            ''/home/u'' [''workshop''] ''work''
          = [\<lparr>Repo = \<lparr>URL = ''git@github.com:me/tools.git'', Name = []\<rparr>, Path = ''workshop'',
               FullPath = ''/srv/workshop/tools'', RName = ''tools''\<rparr>]"
    by code_simp
  have 8: "\<not> prefix (Split ''work'' (CHR ''.'')) (Split ''workshop'' (CHR ''.''))"
    by simp
  have 9: "GetRepos \<lparr>Default = True, Root = ''/srv'',
                    Repos = [''work.back'' \<mapsto> [\<lparr>URL = ''git@github.com:me/tools.git'', Name = []\<rparr>]]\<rparr>
            ''/home/u'' [''work.back''] ''work.backend''
          = [\<lparr>Repo = \<lparr>URL = ''git@github.com:me/tools.git'', Name = []\<rparr>, Path = ''work.back'',
               FullPath = ''/srv/work/back/tools'', RName = ''tools''\<rparr>]"
    by code_simp
  have 10: "\<not> prefix (Split ''work.back'' (CHR ''.'')) (Split ''work.backend'' (CHR ''.''))"
    by simp
  have 11: "GetRepos \<lparr>Default = True, Root = ''/srv'',
                    Repos = [''work.backend'' \<mapsto> [\<lparr>URL = ''git@github.com:company/api.git'', Name = []\<rparr>]]\<rparr>
            ''/home/u'' [''work.backend''] ''work.backend.api''
          = [\<lparr>Repo = \<lparr>URL = ''git@github.com:company/api.git'', Name = []\<rparr>, Path = ''work.backend'',
               FullPath = ''/srv/work/backend/api'', RName = ''api''\<rparr>]"
    by code_simp
  show ?thesis
    by (intro conjI allI impI; (elim conjE)?)
       (rule 1 7 8 9 10 11 | erule (1) 2 | erule (2) 3 | erule (3) 4 | erule (3) 5 | erule (3) 6)+
qed

theorem GetRepos_string_prefix_match_witness:
  "range_order (Repos \<lparr>Default = True, Root = ''/srv'',
                    Repos = [''work.backend'' \<mapsto> [\<lparr>URL = ''git@github.com:company/api.git'', Name = []\<rparr>]]\<rparr>)
      [''work.backend'']
   \<and> ''work.backend.api'' \<noteq> []
   \<and> HasPrefix ''work.backend.api'' ''work.backend''
   \<and> Contains ''work.backend.api'' (CHR ''.'')
   \<and> HasPrefix (''work.backend'' @ ''.'' @ ''api'') ''work.backend.api''
   \<and> resolved_repo ''/srv'' ''work.backend'' \<lparr>URL = ''git@github.com:company/api.git'', Name = []\<rparr>
     \<in> set (GetRepos \<lparr>Default = True, Root = ''/srv'',
                    Repos = [''work.backend'' \<mapsto> [\<lparr>URL = ''git@github.com:company/api.git'', Name = []\<rparr>]]\<rparr>
            ''/home/u'' [''work.backend''] ''work.backend.api'')
   \<and> range_order (Repos \<lparr>Default = True, Root = ''/srv'',
                    Repos = [''workshop'' \<mapsto> [\<lparr>URL = ''git@github.com:me/tools.git'', Name = []\<rparr>]]\<rparr>)
      [''workshop'']
   \<and> HasPrefix ''workshop'' ''work''
   \<and> resolved_repo ''/srv'' ''workshop'' \<lparr>URL = ''git@github.com:me/tools.git'', Name = []\<rparr>
     \<in> set (GetRepos \<lparr>Default = True, Root = ''/srv'',
                    Repos = [''workshop'' \<mapsto> [\<lparr>URL = ''git@github.com:me/tools.git'', Name = []\<rparr>]]\<rparr>
            ''/home/u'' [''workshop''] ''work'')"
proof -
  let ?r = "\<lparr>URL = ''git@github.com:me/tools.git'', Name = []\<rparr>"
  let ?a = "\<lparr>Default = True, Root = ''/srv'', Repos = [''workshop'' \<mapsto> [?r]]\<rparr>"
  let ?q = "\<lparr>URL = ''git@github.com:company/api.git'', Name = []\<rparr>"
  let ?b = "\<lparr>Default = True, Root = ''/srv'', Repos = [''work.backend'' \<mapsto> [?q]]\<rparr>"
  have h1: "range_order (Repos ?a) [''workshop'']" by (simp add: range_order_def)
  have h2: "''work'' \<noteq> []" by simp
  have e: "ExpandPath ''/home/u'' (Root ?a) = ''/srv''" by (simp add: ExpandPath_def HasPrefix_def)
  have p: "HasPrefix ''workshop'' ''work''" by (simp add: HasPrefix_def)
  have "Repos ?a ''workshop'' = Some [?r] \<and> ?r \<in> set [?r] \<and> HasPrefix ''workshop'' ''work''"
    using p by simp
  then have w1: "resolved_repo (ExpandPath ''/home/u'' (Root ?a)) ''workshop'' ?r
      \<in> set (GetRepos ?a ''/home/u'' [''workshop''] ''work'')"
    using GetRepos_string_prefix_match [OF h1 h2, of "''/home/u''"] by blast
  have g1: "range_order (Repos ?b) [''work.backend'']" by (simp add: range_order_def)
  have g2: "''work.backend.api'' \<noteq> []" by simp
  have e': "ExpandPath ''/home/u'' (Root ?b) = ''/srv''" by (simp add: ExpandPath_def HasPrefix_def)
  have n: "resolved_name ?q = ''api''" by code_simp
  have q1: "HasPrefix ''work.backend.api'' ''work.backend''" by (simp add: HasPrefix_def)
  have q2: "HasPrefix (''work.backend'' @ ''.'' @ ''api'') ''work.backend.api''" by (simp add: HasPrefix_def)
  have q3: "Contains ''work.backend.api'' (CHR ''.'')" by (simp add: Contains_def)
  have "Repos ?b ''work.backend'' = Some [?q] \<and> ?q \<in> set [?q] \<and> HasPrefix ''work.backend.api'' ''work.backend''
      \<and> HasPrefix (''work.backend'' @ ''.'' @ resolved_name ?q) ''work.backend.api''"
    using q1 q2 n by simp
  then have w2: "resolved_repo (ExpandPath ''/home/u'' (Root ?b)) ''work.backend'' ?q
      \<in> set (GetRepos ?b ''/home/u'' [''work.backend''] ''work.backend.api'')"
    using GetRepos_string_prefix_match [OF g1 g2, of "''/home/u''"] by blast
  show ?thesis using h1 p w1 e g1 g2 q1 q2 q3 w2 e' by simp
qed

subsection \<open>Completion candidates\<close>

lemma add_path_inv:
  "paths_inv st \<Longrightarrow> paths_inv (add_path p st) \<and> snd (add_path p st) = insert p (snd st)"
  by (auto simp: paths_inv_def add_path_def)

lemma RepoPaths_repos_inv:
  "paths_inv st \<Longrightarrow>
     paths_inv (RepoPaths_repos path repos st) \<and>
     snd (RepoPaths_repos path repos st) =
       snd st \<union> {path @ ''.'' @ resolved_name r | r. r \<in> set repos}"
proof (induction repos arbitrary: st)
  case Nil
  then show ?case by simp
next
  case (Cons repo repos)
  from add_path_inv [OF Cons.prems, of "path @ ''.'' @ resolved_name repo"]
  have i: "paths_inv (add_path (path @ ''.'' @ resolved_name repo) st)"
    and s: "snd (add_path (path @ ''.'' @ resolved_name repo) st)
            = insert (path @ ''.'' @ resolved_name repo) (snd st)"
    by simp_all
  from Cons.IH [OF i] s show ?case by auto
qed

lemma RepoPaths_paths_inv:
  "paths_inv st \<Longrightarrow>
     paths_inv (RepoPaths_paths es st) \<and>
     snd (RepoPaths_paths es st) =
       snd st \<union> fst ` set es
         \<union> {path @ ''.'' @ resolved_name r | path repos r. (path, repos) \<in> set es \<and> r \<in> set repos}"
proof (induction es arbitrary: st)
  case Nil
  then show ?case by simp
next
  case (Cons e es)
  obtain path repos where e: "e = (path, repos)" by (cases e)
  from add_path_inv [OF Cons.prems, of path]
  have i1: "paths_inv (add_path path st)" and s1: "snd (add_path path st) = insert path (snd st)"
    by simp_all
  from RepoPaths_repos_inv [OF i1, of path repos] s1
  have i2: "paths_inv (RepoPaths_repos path repos (add_path path st))"
    and s2: "snd (RepoPaths_repos path repos (add_path path st))
             = insert path (snd st) \<union> {path @ ''.'' @ resolved_name r | r. r \<in> set repos}"
    by simp_all
  from Cons.IH [OF i2] have
    i3: "paths_inv (RepoPaths_paths es (RepoPaths_repos path repos (add_path path st)))"
    and s3: "snd (RepoPaths_paths es (RepoPaths_repos path repos (add_path path st))) =
       snd (RepoPaths_repos path repos (add_path path st)) \<union> fst ` set es
         \<union> {path @ ''.'' @ resolved_name r | path repos r. (path, repos) \<in> set es \<and> r \<in> set repos}"
    by simp_all
  have c: "{p @ ''.'' @ resolved_name r | p rs r. (p, rs) \<in> set ((path, repos) # es) \<and> r \<in> set rs}
        = {path @ ''.'' @ resolved_name r | r. r \<in> set repos}
          \<union> {p @ ''.'' @ resolved_name r | p rs r. (p, rs) \<in> set es \<and> r \<in> set rs}"
    by auto
  have "snd (RepoPaths_paths ((path, repos) # es) st) =
       snd st \<union> fst ` set ((path, repos) # es)
         \<union> {p @ ''.'' @ resolved_name r | p rs r. (p, rs) \<in> set ((path, repos) # es) \<and> r \<in> set rs}"
    unfolding c using s3 s2 by (simp add: Un_ac)
  then show ?case
    unfolding e using i3 by simp
qed

lemma RepoPaths_distinct_set:
  "distinct (RepoPaths a ks) \<and>
   set (RepoPaths a ks) = fst ` set (entries (Repos a) ks)
     \<union> {path @ ''.'' @ resolved_name r | path repos r.
          (path, repos) \<in> set (entries (Repos a) ks) \<and> r \<in> set repos}"
proof -
  have "paths_inv ([], {})" by (simp add: paths_inv_def)
  from RepoPaths_paths_inv [OF this, of "entries (Repos a) ks"] show ?thesis
    by (auto simp add: RepoPaths_def paths_inv_def)
qed

text \<open>
  Claim C9, amended. \<^verbatim>\<open>RepoPaths\<close> returns a list without duplicates that holds exactly
  the paths of the account and the qualified names \<open>path.name\<close> of its repositories, in
  the order in which the map and the repository lists are walked; the list is not sorted by
  the function itself. The completion command sorts it before printing, and what it prints
  for the empty prefix is sorted, without duplicates, and has the same elements.
\<close>

theorem RepoPaths_contents:
  assumes "range_order (Repos a) ks"
  shows "distinct (RepoPaths a ks)
       \<and> set (RepoPaths a ks) =
           dom (Repos a) \<union> {P @ ''.'' @ resolved_name r | P rs r. Repos a P = Some rs \<and> r \<in> set rs}
       \<and> sorted (completePath a ks []) \<and> distinct (completePath a ks [])
       \<and> set (completePath a ks []) = set (RepoPaths a ks)"
proof -
  have d: "fst ` set (entries (Repos a) ks) = dom (Repos a)"
    using assms by (auto simp: set_entries range_order_def image_iff)
  have m: "(path, repos) \<in> set (entries (Repos a) ks) \<longleftrightarrow> Repos a path = Some repos" for path repos
    using assms by (auto simp: set_entries range_order_def)
  show ?thesis
    using RepoPaths_distinct_set [of a ks] by (simp add: d m completePath_def)
qed

text \<open>
  Claim C9, as stated, says that the list returned is sorted lexicographically. For an
  account with the single path \<^verbatim>\<open>b\<close> holding the repositories \<^verbatim>\<open>z\<close> and \<^verbatim>\<open>a\<close> in
  this order, the function returns \<^verbatim>\<open>b\<close>, \<^verbatim>\<open>b.z\<close>, \<^verbatim>\<open>b.a\<close>.
\<close>

theorem RepoPaths_sorted_counterexample:
  "range_order (Repos \<lparr>Default = True, Root = ''/srv'',
       Repos = [''b'' \<mapsto> [\<lparr>URL = ''u/z.git'', Name = []\<rparr>, \<lparr>URL = ''u/a.git'', Name = []\<rparr>]]\<rparr>) [''b'']
   \<and> RepoPaths \<lparr>Default = True, Root = ''/srv'',
       Repos = [''b'' \<mapsto> [\<lparr>URL = ''u/z.git'', Name = []\<rparr>, \<lparr>URL = ''u/a.git'', Name = []\<rparr>]]\<rparr> [''b'']
     = [''b'', ''b.z'', ''b.a'']
   \<and> \<not> sorted (RepoPaths \<lparr>Default = True, Root = ''/srv'',
       Repos = [''b'' \<mapsto> [\<lparr>URL = ''u/z.git'', Name = []\<rparr>, \<lparr>URL = ''u/a.git'', Name = []\<rparr>]]\<rparr> [''b''])"
proof -
  let ?a = "\<lparr>Default = True, Root = ''/srv'',
       Repos = [''b'' \<mapsto> [\<lparr>URL = ''u/z.git'', Name = []\<rparr>, \<lparr>URL = ''u/a.git'', Name = []\<rparr>]]\<rparr>"
  have 1: "range_order (Repos ?a) [''b'']" by (simp add: range_order_def)
  have 2: "RepoPaths ?a [''b''] = [''b'', ''b.z'', ''b.a'']" by code_simp
  have 3: "\<not> sorted [''b'', ''b.z'', ''b.a'']" by code_simp
  show ?thesis using 1 2 3 by simp
qed

theorem RepoPaths_contents_witness:
  "range_order (Repos \<lparr>Default = True, Root = ''/srv'',
       Repos = [''b'' \<mapsto> [\<lparr>URL = ''u/z.git'', Name = []\<rparr>, \<lparr>URL = ''u/a.git'', Name = []\<rparr>]]\<rparr>) [''b'']
   \<and> distinct (RepoPaths \<lparr>Default = True, Root = ''/srv'',
       Repos = [''b'' \<mapsto> [\<lparr>URL = ''u/z.git'', Name = []\<rparr>, \<lparr>URL = ''u/a.git'', Name = []\<rparr>]]\<rparr> [''b''])
   \<and> sorted (completePath \<lparr>Default = True, Root = ''/srv'',
       Repos = [''b'' \<mapsto> [\<lparr>URL = ''u/z.git'', Name = []\<rparr>, \<lparr>URL = ''u/a.git'', Name = []\<rparr>]]\<rparr> [''b''] [])
   \<and> completePath \<lparr>Default = True, Root = ''/srv'',
       Repos = [''b'' \<mapsto> [\<lparr>URL = ''u/z.git'', Name = []\<rparr>, \<lparr>URL = ''u/a.git'', Name = []\<rparr>]]\<rparr> [''b''] []
     = [''b'', ''b.a'', ''b.z'']"
proof -
  let ?a = "\<lparr>Default = True, Root = ''/srv'',
       Repos = [''b'' \<mapsto> [\<lparr>URL = ''u/z.git'', Name = []\<rparr>, \<lparr>URL = ''u/a.git'', Name = []\<rparr>]]\<rparr>"
  have 1: "range_order (Repos ?a) [''b'']" by (simp add: range_order_def)
  have 2: "completePath ?a [''b''] [] = [''b'', ''b.a'', ''b.z'']" by code_simp
  from RepoPaths_contents [OF 1] have "distinct (RepoPaths ?a [''b''])" "sorted (completePath ?a [''b''] [])"
    by blast+
  then show ?thesis using 1 2 by blast
qed

subsection \<open>The default account\<close>

lemma find_entries_None:
  "List.find (\<lambda>(name, account). Default account) (entries m ks) = None \<longleftrightarrow>
     (\<forall>n\<in>set ks. \<forall>acc. m n = Some acc \<longrightarrow> \<not> Default acc)"
  by (auto simp: find_None_iff set_entries)

lemma find_entries_Some:
  "List.find (\<lambda>(name, account). Default account) (entries m ks) = Some (n, acc) \<Longrightarrow>
     m n = Some acc \<and> Default acc \<and> n \<in> set ks"
  by (induction ks) (auto simp: entries_Cons split: option.splits if_splits)

lemma range_order_singleton:
  assumes "range_order m ks" and "dom m = {n}"
  shows "ks = [n]"
proof -
  have "distinct ks" "set ks = {n}" using assms by (auto simp: range_order_def)
  then show ?thesis
    by (cases ks) (auto simp: insert_eq_iff dest: subset_singletonD)
qed

text \<open>
  Claim C5. Whatever the order in which the accounts are visited: when exactly one account
  is flagged as default, \<^verbatim>\<open>DefaultAccount\<close> returns it with its name; when none is
  flagged and there is exactly one account, it returns that account; when none is flagged
  and there are two accounts or more, it fails with the error for an ambiguous default.
\<close>

theorem DefaultAccount_resolution:
  assumes "range_order (Accounts c) ks1" and "range_order (Accounts c) ks2"
  shows "(Accounts c n = Some acc \<and> Default acc
            \<and> (\<forall>n' acc'. Accounts c n' = Some acc' \<and> Default acc' \<longrightarrow> n' = n)
          \<longrightarrow> DefaultAccount c ks1 ks2 = Inr (acc, n))
       \<and> ((\<forall>n' acc'. Accounts c n' = Some acc' \<longrightarrow> \<not> Default acc')
            \<and> dom (Accounts c) = {n} \<and> Accounts c n = Some acc
          \<longrightarrow> DefaultAccount c ks1 ks2 = Inr (acc, n))
       \<and> ((\<forall>n' acc'. Accounts c n' = Some acc' \<longrightarrow> \<not> Default acc')
            \<and> 2 \<le> card (dom (Accounts c))
          \<longrightarrow> DefaultAccount c ks1 ks2 = Inl NoDefaultAmbiguous)"
proof (intro conjI impI)
  assume a: "Accounts c n = Some acc \<and> Default acc
            \<and> (\<forall>n' acc'. Accounts c n' = Some acc' \<and> Default acc' \<longrightarrow> n' = n)"
  then have "n \<in> set ks1" using assms(1) by (auto simp: range_order_def)
  then have "List.find (\<lambda>(name, account). Default account) (entries (Accounts c) ks1) \<noteq> None"
    using a by (auto simp: find_entries_None)
  then obtain n' acc' where
    f: "List.find (\<lambda>(name, account). Default account) (entries (Accounts c) ks1) = Some (n', acc')"
    by (cases "List.find (\<lambda>(name, account). Default account) (entries (Accounts c) ks1)") auto
  from find_entries_Some [OF f] a have "n' = n" "acc' = acc" by auto
  then show "DefaultAccount c ks1 ks2 = Inr (acc, n)"
    using f by (simp add: DefaultAccount_def)
next
  assume a: "(\<forall>n' acc'. Accounts c n' = Some acc' \<longrightarrow> \<not> Default acc')
            \<and> dom (Accounts c) = {n} \<and> Accounts c n = Some acc"
  then have f: "List.find (\<lambda>(name, account). Default account) (entries (Accounts c) ks1) = None"
    by (auto simp: find_entries_None)
  have "ks2 = [n]" using range_order_singleton [OF assms(2)] a by simp
  then have "entries (Accounts c) ks2 = [(n, acc)]" using a by (simp add: entries_Cons)
  then show "DefaultAccount c ks1 ks2 = Inr (acc, n)"
    using f a by (simp add: DefaultAccount_def)
next
  assume a: "(\<forall>n' acc'. Accounts c n' = Some acc' \<longrightarrow> \<not> Default acc')
            \<and> 2 \<le> card (dom (Accounts c))"
  then have f: "List.find (\<lambda>(name, account). Default account) (entries (Accounts c) ks1) = None"
    by (auto simp: find_entries_None)
  then show "DefaultAccount c ks1 ks2 = Inl NoDefaultAmbiguous"
    using a by (simp add: DefaultAccount_def)
qed

theorem DefaultAccount_resolution_witness:
  "range_order (Accounts \<lparr>Accounts =
       [''home'' \<mapsto> \<lparr>Default = False, Root = ''~/a'', Repos = Map.empty\<rparr>,
        ''work'' \<mapsto> \<lparr>Default = True, Root = ''~/b'', Repos = Map.empty\<rparr>,
        ''spare'' \<mapsto> \<lparr>Default = False, Root = ''~/c'', Repos = Map.empty\<rparr>]\<rparr>)
     [''spare'', ''home'', ''work'']
   \<and> DefaultAccount \<lparr>Accounts =
       [''home'' \<mapsto> \<lparr>Default = False, Root = ''~/a'', Repos = Map.empty\<rparr>,
        ''work'' \<mapsto> \<lparr>Default = True, Root = ''~/b'', Repos = Map.empty\<rparr>,
        ''spare'' \<mapsto> \<lparr>Default = False, Root = ''~/c'', Repos = Map.empty\<rparr>]\<rparr>
       [''spare'', ''home'', ''work''] [''work'', ''home'', ''spare'']
     = Inr (\<lparr>Default = True, Root = ''~/b'', Repos = Map.empty\<rparr>, ''work'')
   \<and> DefaultAccount \<lparr>Accounts =
       [''home'' \<mapsto> \<lparr>Default = False, Root = ''~/a'', Repos = Map.empty\<rparr>,
        ''work'' \<mapsto> \<lparr>Default = False, Root = ''~/b'', Repos = Map.empty\<rparr>,
        ''spare'' \<mapsto> \<lparr>Default = False, Root = ''~/c'', Repos = Map.empty\<rparr>]\<rparr>
       [''spare'', ''home'', ''work''] [''work'', ''home'', ''spare'']
     = Inl NoDefaultAmbiguous
   \<and> DefaultAccount \<lparr>Accounts = [''home'' \<mapsto> \<lparr>Default = False, Root = ''~/a'', Repos = Map.empty\<rparr>]\<rparr>
       [''home''] [''home'']
     = Inr (\<lparr>Default = False, Root = ''~/a'', Repos = Map.empty\<rparr>, ''home'')"
proof -
  let ?h = "\<lparr>Default = False, Root = ''~/a'', Repos = Map.empty :: Repo list gomap\<rparr>"
  let ?w = "\<lparr>Default = True, Root = ''~/b'', Repos = Map.empty :: Repo list gomap\<rparr>"
  let ?w' = "\<lparr>Default = False, Root = ''~/b'', Repos = Map.empty :: Repo list gomap\<rparr>"
  let ?s = "\<lparr>Default = False, Root = ''~/c'', Repos = Map.empty :: Repo list gomap\<rparr>"
  let ?c1 = "\<lparr>Accounts = [''home'' \<mapsto> ?h, ''work'' \<mapsto> ?w, ''spare'' \<mapsto> ?s]\<rparr>"
  let ?c2 = "\<lparr>Accounts = [''home'' \<mapsto> ?h, ''work'' \<mapsto> ?w', ''spare'' \<mapsto> ?s]\<rparr>"
  let ?c3 = "\<lparr>Accounts = [''home'' \<mapsto> ?h]\<rparr>"
  let ?k1 = "[''spare'', ''home'', ''work'']" and ?k2 = "[''work'', ''home'', ''spare'']"
  have r1: "range_order (Accounts ?c1) ?k1" "range_order (Accounts ?c1) ?k2"
    by (auto simp: range_order_def)
  have r2: "range_order (Accounts ?c2) ?k1" "range_order (Accounts ?c2) ?k2"
    by (auto simp: range_order_def)
  have r3: "range_order (Accounts ?c3) [''home'']"
    by (auto simp: range_order_def)
  have "DefaultAccount ?c1 ?k1 ?k2 = Inr (?w, ''work'')"
    using DefaultAccount_resolution [OF r1, of "''work''" ?w] by (simp split: if_splits)
  moreover have "DefaultAccount ?c2 ?k1 ?k2 = Inl NoDefaultAmbiguous"
    using DefaultAccount_resolution [OF r2] by (simp split: if_splits)
  moreover have "DefaultAccount ?c3 [''home''] [''home''] = Inr (?h, ''home'')"
    using DefaultAccount_resolution [OF r3 r3, of "''home''" ?h] by (simp split: if_splits)
  ultimately show ?thesis using r1(1) by blast
qed

subsection \<open>The parser\<close>

lemma slash_free_Nil [simp]: "slash_free []"
  by (simp add: slash_free_def)

lemma slash_free_append:
  "slash_free pre \<Longrightarrow> slash_free key \<Longrightarrow> slash_free (pre @ ''.'' @ key)"
  by (simp add: slash_free_def Split_append_sep)

lemma not_slash_free_marker: "\<not> slash_free (p @ ''./'')"
  using Split_append_sep [of p "CHR ''.''" "''/''"] by (simp add: slash_free_def)

lemma parse_slash_free:
  "marker_on_arrays data \<Longrightarrow> slash_free pre \<Longrightarrow> \<forall>k\<in>dom repos. slash_free k \<Longrightarrow>
     \<forall>k\<in>dom (parseReposRecursive data pre repos). slash_free k"
proof (induction data pre repos rule: parseReposRecursive.induct)
  case (1 pre repos)
  then show ?case by simp
next
  case (2 key val rest pre repos)
  let ?cur = "if pre = [] then key else pre @ ''.'' @ key"
  let ?repos' = "case val of
          Array v \<Rightarrow>
            repos((if key = ''/'' then pre
                   else if pre = [] then key else pre @ ''.'' @ key) \<mapsto> parse_repo_items v)
        | Table v \<Rightarrow> parseReposRecursive v (if pre = [] then key else pre @ ''.'' @ key) repos
        | _ \<Rightarrow> repos"
  have rest: "marker_on_arrays rest" using "2.prems"(1) by simp
  have "\<forall>k\<in>dom ?repos'. slash_free k"
  proof (cases val)
    case (Array v)
    then have "key = ''/'' \<or> slash_free key" using "2.prems"(1) by simp
    then have "slash_free (if key = ''/'' then pre else ?cur)"
      using "2.prems"(2) slash_free_append by auto
    then show ?thesis using Array "2.prems"(3) by auto
  next
    case (Table v)
    then have k: "slash_free key" and v: "marker_on_arrays v" using "2.prems"(1) by simp_all
    have "slash_free ?cur" using k "2.prems"(2) slash_free_append by auto
    from "2.IH"(1) [OF Table v this "2.prems"(3)] show ?thesis using Table by simp
  qed (use "2.prems"(3) in simp_all)
  from "2.IH"(2) [OF rest "2.prems"(2) this] show ?case by simp
qed

lemma parse_shorter_untouched:
  "pre \<noteq> [] \<Longrightarrow> length k < length pre \<Longrightarrow> parseReposRecursive data pre repos k = repos k"
proof (induction data pre repos rule: parseReposRecursive.induct)
  case (1 pre repos)
  then show ?case by simp
next
  case (2 key val rest pre repos)
  let ?repos' = "case val of
          Array v \<Rightarrow>
            repos((if key = ''/'' then pre
                   else if pre = [] then key else pre @ ''.'' @ key) \<mapsto> parse_repo_items v)
        | Table v \<Rightarrow> parseReposRecursive v (if pre = [] then key else pre @ ''.'' @ key) repos
        | _ \<Rightarrow> repos"
  have "?repos' k = repos k"
  proof (cases val)
    case (Array v)
    then show ?thesis using "2.prems" by auto
  next
    case (Table v)
    have "parseReposRecursive v (if pre = [] then key else pre @ ''.'' @ key) repos k = repos k"
      using "2.IH"(1) [OF Table] "2.prems" by simp
    then show ?thesis using Table by simp
  qed simp_all
  moreover have "parseReposRecursive rest pre ?repos' k = ?repos' k"
    using "2.IH"(2) "2.prems" by simp
  ultimately show ?case by simp
qed

lemma parse_step_prefix:
  assumes "pre \<noteq> []" and "key \<noteq> ''/''"
  shows "(case val of
          Array v \<Rightarrow>
            repos((if key = ''/'' then pre
                   else if pre = [] then key else pre @ ''.'' @ key) \<mapsto> parse_repo_items v)
        | Table v \<Rightarrow> parseReposRecursive v (if pre = [] then key else pre @ ''.'' @ key) repos
        | _ \<Rightarrow> repos) pre = repos pre"
  using assms by (cases val) (simp_all add: parse_shorter_untouched)

lemma parse_no_marker:
  "pre \<noteq> [] \<Longrightarrow> ''/'' \<notin> fst ` set data \<Longrightarrow> parseReposRecursive data pre repos pre = repos pre"
proof (induction data arbitrary: repos)
  case Nil
  then show ?case by simp
next
  case (Cons e data)
  obtain key val where e: "e = (key, val)" by (cases e)
  have k: "key \<noteq> ''/''" and r: "''/'' \<notin> fst ` set data" using Cons.prems(2) e by auto
  show ?case
    unfolding e parseReposRecursive.simps
    using Cons.IH [OF Cons.prems(1) r] parse_step_prefix [OF Cons.prems(1) k] by simp
qed

lemma parse_marker_array:
  "pre \<noteq> [] \<Longrightarrow> distinct (map fst data) \<Longrightarrow> (''/'', Array v) \<in> set data \<Longrightarrow>
     parseReposRecursive data pre repos pre = Some (parse_repo_items v)"
proof (induction data arbitrary: repos)
  case Nil
  then show ?case by simp
next
  case (Cons e data)
  obtain key val where e: "e = (key, val)" by (cases e)
  show ?case
  proof (cases "key = ''/''")
    case True
    then have n: "''/'' \<notin> fst ` set data" using Cons.prems(2) e by auto
    then have "(''/'', Array v) \<notin> set data" by (auto simp: image_iff)
    then have val: "val = Array v" using Cons.prems(3) e True by auto
    show ?thesis
      unfolding e parseReposRecursive.simps
      using parse_no_marker [OF Cons.prems(1) n] val True by simp
  next
    case False
    then have m: "(''/'', Array v) \<in> set data" using Cons.prems(3) e by auto
    have d: "distinct (map fst data)" using Cons.prems(2) by simp
    show ?thesis
      unfolding e parseReposRecursive.simps
      using Cons.IH [OF Cons.prems(1) d m] by simp
  qed
qed

lemma load_accounts_Repos:
  "load_accounts accountsRaw accounts n = Some a \<Longrightarrow>
     accounts n = Some a \<or>
     (\<exists>accountMap. (n, Table accountMap) \<in> set accountsRaw \<and>
        Repos a = (case map_of accountMap ''repos'' of
                     Some (Table reposRaw) \<Rightarrow> parseReposRecursive reposRaw [] Map.empty
                   | _ \<Rightarrow> Map.empty))"
proof (induction accountsRaw arbitrary: accounts)
  case Nil
  then show ?case by simp
next
  case (Cons e accountsRaw)
  obtain accountName accountData where e: "e = (accountName, accountData)" by (cases e)
  show ?case
  proof (cases accountData)
    case (Table accountMap)
    let ?acc = "\<lparr>Default = (case map_of accountMap ''default'' of Some (Boolean def) \<Rightarrow> def | _ \<Rightarrow> False),
                Root = (case map_of accountMap ''root'' of Some (String root) \<Rightarrow> root | _ \<Rightarrow> []),
                Repos = (case map_of accountMap ''repos'' of
                           Some (Table reposRaw) \<Rightarrow> parseReposRecursive reposRaw [] Map.empty
                         | _ \<Rightarrow> Map.empty)\<rparr>"
    have "load_accounts accountsRaw (accounts(accountName \<mapsto> ?acc)) n = Some a"
      using Cons.prems e Table by simp
    from Cons.IH [OF this] show ?thesis
      unfolding e Table by (auto split: if_splits)
  next
    case (String x)
    then show ?thesis using Cons e by auto
  next
    case (Boolean x)
    then show ?thesis using Cons e by auto
  next
    case (Array x)
    then show ?thesis using Cons e by auto
  next
    case Other
    then show ?thesis using Cons e by auto
  qed
qed

lemma load_accounts_slash_free:
  assumes "load_accounts accountsRaw Map.empty n = Some a"
    and "\<forall>accountMap reposRaw. (n, Table accountMap) \<in> set accountsRaw
            \<and> map_of accountMap ''repos'' = Some (Table reposRaw) \<longrightarrow> marker_on_arrays reposRaw"
  shows "\<forall>k\<in>dom (Repos a). slash_free k"
proof -
  from load_accounts_Repos [OF assms(1)] obtain accountMap where
    m: "(n, Table accountMap) \<in> set accountsRaw" and
    r: "Repos a = (case map_of accountMap ''repos'' of
                     Some (Table reposRaw) \<Rightarrow> parseReposRecursive reposRaw [] Map.empty
                   | _ \<Rightarrow> Map.empty)" by auto
  show ?thesis
  proof (cases "map_of accountMap ''repos''")
    case None
    then show ?thesis using r by simp
  next
    case (Some v)
    show ?thesis
    proof (cases v)
      case (Table reposRaw)
      then have "marker_on_arrays reposRaw" using assms(2) m Some by blast
      then have "\<forall>k\<in>dom (parseReposRecursive reposRaw [] Map.empty). slash_free k"
        using parse_slash_free [of reposRaw "[]" Map.empty] by simp
      then show ?thesis using r Some Table by simp
    qed (use r Some in simp_all)
  qed
qed

text \<open>
  Claim C1, amended. When the marker \<^verbatim>\<open>"/"\<close> occurs in the decoded tree only as the key of
  a repository array (no table is keyed \<^verbatim>\<open>"/"\<close> and no other key has a segment
  \<^verbatim>\<open>"/"\<close>), no key of the flattened map has a segment \<^verbatim>\<open>"/"\<close>, and no key equal to a
  parent path followed by the segment \<^verbatim>\<open>"/"\<close> is created. In a table reached at a
  non-empty prefix, the array under the key \<^verbatim>\<open>"/"\<close> is stored at the prefix itself.
  This holds for the map of every account that the loader builds from such a tree.
  Parsing \<^verbatim>\<open>repos.a.b = [{url="u1"}]\<close> together with \<^verbatim>\<open>repos.a."/" = [{url="u2"}]\<close>
  gives a map with the two keys \<^verbatim>\<open>a\<close> and \<^verbatim>\<open>a.b\<close>, holding the descriptor of
  \<^verbatim>\<open>u2\<close> and of \<^verbatim>\<open>u1\<close>, in either order of the two inner keys.
\<close>

theorem parse_marker_stripped:
  "(marker_on_arrays data \<and> slash_free pre \<and> (\<forall>k\<in>dom repos. slash_free k) \<longrightarrow>
      (\<forall>k\<in>dom (parseReposRecursive data pre repos). slash_free k)
      \<and> parseReposRecursive data pre repos (parent @ ''./'') = None)
   \<and> (pre \<noteq> [] \<and> distinct (map fst data) \<and> (''/'', Array v) \<in> set data \<longrightarrow>
      parseReposRecursive data pre repos pre = Some (parse_repo_items v))
   \<and> parseReposRecursive
        [(''a'', Table [(''b'', Array [Table [(''url'', String ''u1'')]]),
                        (''/'', Array [Table [(''url'', String ''u2'')]])])] [] Map.empty ''a''
      = Some [\<lparr>URL = ''u2'', Name = []\<rparr>]
   \<and> parseReposRecursive
        [(''a'', Table [(''b'', Array [Table [(''url'', String ''u1'')]]),
                        (''/'', Array [Table [(''url'', String ''u2'')]])])] [] Map.empty ''a.b''
      = Some [\<lparr>URL = ''u1'', Name = []\<rparr>]
   \<and> dom (parseReposRecursive
        [(''a'', Table [(''b'', Array [Table [(''url'', String ''u1'')]]),
                        (''/'', Array [Table [(''url'', String ''u2'')]])])] [] Map.empty)
      = {''a'', ''a.b''}
   \<and> parseReposRecursive
        [(''a'', Table [(''/'', Array [Table [(''url'', String ''u2'')]]),
                        (''b'', Array [Table [(''url'', String ''u1'')]])])] [] Map.empty
      = parseReposRecursive
        [(''a'', Table [(''b'', Array [Table [(''url'', String ''u1'')]]),
                        (''/'', Array [Table [(''url'', String ''u2'')]])])] [] Map.empty
   \<and> (load_accounts accountsRaw Map.empty n = Some a
        \<and> (\<forall>accountMap reposRaw. (n, Table accountMap) \<in> set accountsRaw
               \<and> map_of accountMap ''repos'' = Some (Table reposRaw) \<longrightarrow> marker_on_arrays reposRaw)
      \<longrightarrow> (\<forall>k\<in>dom (Repos a). slash_free k))"
proof -
  have 7: "\<forall>k\<in>dom (Repos a). slash_free k"
    if "load_accounts accountsRaw Map.empty n = Some a
        \<and> (\<forall>accountMap reposRaw. (n, Table accountMap) \<in> set accountsRaw
               \<and> map_of accountMap ''repos'' = Some (Table reposRaw) \<longrightarrow> marker_on_arrays reposRaw)"
    using that load_accounts_slash_free [of accountsRaw n a] by blast
  have 1: "(\<forall>k\<in>dom (parseReposRecursive data pre repos). slash_free k)
      \<and> parseReposRecursive data pre repos (parent @ ''./'') = None"
    if h: "marker_on_arrays data \<and> slash_free pre \<and> (\<forall>k\<in>dom repos. slash_free k)"
  proof -
    from h have a: "\<forall>k\<in>dom (parseReposRecursive data pre repos). slash_free k"
      using parse_slash_free by blast
    then have "parent @ ''./'' \<notin> dom (parseReposRecursive data pre repos)"
      using not_slash_free_marker by blast
    then show ?thesis using a by blast
  qed
  have 2: "parseReposRecursive data pre repos pre = Some (parse_repo_items v)"
    if "pre \<noteq> [] \<and> distinct (map fst data) \<and> (''/'', Array v) \<in> set data"
    using that parse_marker_array by blast
  have 3: "parseReposRecursive
        [(''a'', Table [(''b'', Array [Table [(''url'', String ''u1'')]]),
                        (''/'', Array [Table [(''url'', String ''u2'')]])])] [] Map.empty ''a''
      = Some [\<lparr>URL = ''u2'', Name = []\<rparr>]"
    by simp
  have 4: "parseReposRecursive
        [(''a'', Table [(''b'', Array [Table [(''url'', String ''u1'')]]),
                        (''/'', Array [Table [(''url'', String ''u2'')]])])] [] Map.empty ''a.b''
      = Some [\<lparr>URL = ''u1'', Name = []\<rparr>]"
    by simp
  have 5: "dom (parseReposRecursive
        [(''a'', Table [(''b'', Array [Table [(''url'', String ''u1'')]]),
                        (''/'', Array [Table [(''url'', String ''u2'')]])])] [] Map.empty)
      = {''a'', ''a.b''}"
    by auto
  have 6: "parseReposRecursive
        [(''a'', Table [(''/'', Array [Table [(''url'', String ''u2'')]]),
                        (''b'', Array [Table [(''url'', String ''u1'')]])])] [] Map.empty
      = parseReposRecursive
        [(''a'', Table [(''b'', Array [Table [(''url'', String ''u1'')]]),
                        (''/'', Array [Table [(''url'', String ''u2'')]])])] [] Map.empty"
    by (auto simp: fun_eq_iff)
  show ?thesis using 1 2 3 4 5 6 7 by blast
qed

text \<open>
  Claim C1, as stated, holds for every decoded configuration. The parser strips the marker
  only where it is the key of an array: for \<^verbatim>\<open>repos.a."/"."/" = [{url="u"}]\<close> the inner
  table is keyed \<^verbatim>\<open>"/"\<close>, and the array is stored under the key \<^verbatim>\<open>a./\<close>, the parent
  path \<^verbatim>\<open>a\<close> followed by the segment \<^verbatim>\<open>"/"\<close>.
\<close>

theorem parse_marker_counterexample:
  "parseReposRecursive
     [(''a'', Table [(''/'', Table [(''/'', Array [Table [(''url'', String ''u'')]])])])] [] Map.empty
     (''a'' @ ''./'')
   = Some [\<lparr>URL = ''u'', Name = []\<rparr>]
   \<and> ''/'' \<in> set (Split (''a'' @ ''./'') (CHR ''.''))
   \<and> \<not> slash_free (''a'' @ ''./'')"
  by (simp add: slash_free_def)

theorem parse_marker_stripped_witness:
  "marker_on_arrays [(''personal'', Table [(''/'', Array [Table [(''url'', String ''git@github.com:me/dotfiles.git'')]]),
                                           (''golang'', Array [Table [(''url'', String ''git@github.com:me/arbol.git''), (''name'', String ''tree'')]])])]
   \<and> slash_free []
   \<and> parseReposRecursive [(''personal'', Table [(''/'', Array [Table [(''url'', String ''git@github.com:me/dotfiles.git'')]]),
                                           (''golang'', Array [Table [(''url'', String ''git@github.com:me/arbol.git''), (''name'', String ''tree'')]])])]
        [] Map.empty ''personal./'' = None
   \<and> parseReposRecursive [(''/'', Array [Table [(''url'', String ''git@github.com:me/dotfiles.git'')]]),
                           (''golang'', Array [Table [(''url'', String ''git@github.com:me/arbol.git''), (''name'', String ''tree'')]])]
        ''personal'' Map.empty ''personal'' = Some [\<lparr>URL = ''git@github.com:me/dotfiles.git'', Name = []\<rparr>]"
proof -
  let ?inner = "[(''/'', Array [Table [(''url'', String ''git@github.com:me/dotfiles.git'')]]),
                 (''golang'', Array [Table [(''url'', String ''git@github.com:me/arbol.git''), (''name'', String ''tree'')]])]"
  let ?data = "[(''personal'', Table ?inner)]"
  have h1: "marker_on_arrays ?data" by (simp add: slash_free_def)
  have h2: "slash_free []" by simp
  have h3: "\<forall>k\<in>dom (Map.empty :: Repo list gomap). slash_free k" by simp
  have a: "parseReposRecursive ?data [] Map.empty (''personal'' @ ''./'') = None"
    using parse_marker_stripped [of ?data "[]" Map.empty "''personal''"] h1 h2 h3 by blast
  have h4: "''personal'' \<noteq> [] \<and> distinct (map fst ?inner)
      \<and> (''/'', Array [Table [(''url'', String ''git@github.com:me/dotfiles.git'')]]) \<in> set ?inner"
    by simp
  have b: "parseReposRecursive ?inner ''personal'' Map.empty ''personal''
      = Some (parse_repo_items [Table [(''url'', String ''git@github.com:me/dotfiles.git'')]])"
    using parse_marker_stripped [of ?inner "''personal''" Map.empty] h4 by blast
  show ?thesis using h1 h2 a b by simp
qed

subsection \<open>Validation\<close>

lemma siblings_of_upd:
  "siblings_of (sp(p \<mapsto> insert c (case sp p of None \<Rightarrow> {} | Some s \<Rightarrow> s))) P
     = siblings_of sp P \<union> (if p = P then {c} else {})"
  by (auto simp: siblings_of_def split: option.splits)

lemma siblings_of_fold:
  "siblings_of (fold (\<lambda>i sp.
                 let parentPath = Join (take (i + 1) parts) (CHR ''.'');
                     childSegment = parts ! (i + 1)
                 in sp(parentPath \<mapsto>
                         insert childSegment (case sp parentPath of None \<Rightarrow> {} | Some s \<Rightarrow> s)))
              [0..<m] sp) P
   = siblings_of sp P \<union> {parts ! (i + 1) | i. i < m \<and> Join (take (i + 1) parts) (CHR ''.'') = P}"
proof (induction m)
  case 0
  then show ?case by simp
next
  case (Suc m)
  have "{parts ! (i + 1) | i. i < Suc m \<and> Join (take (i + 1) parts) (CHR ''.'') = P}
      = {parts ! (i + 1) | i. i < m \<and> Join (take (i + 1) parts) (CHR ''.'') = P}
        \<union> (if Join (take (m + 1) parts) (CHR ''.'') = P then {parts ! (m + 1)} else {})"
    by (auto simp: less_Suc_eq)
  then show ?case
    using Suc by (simp add: Let_def siblings_of_upd Un_assoc del: fun_upd_apply)
qed

lemma segments_after_prefix:
  "{Split K (CHR ''.'') ! (i + 1) | i.
      i < length (Split K (CHR ''.'')) - 1 \<and> Join (take (i + 1) (Split K (CHR ''.''))) (CHR ''.'') = P}
   = {child. \<exists>more. Split K (CHR ''.'') = Split P (CHR ''.'') @ child # more}"
  (is "?L = ?R")
proof (intro set_eqI iffI)
  fix c
  let ?parts = "Split K (CHR ''.'')"
  assume "c \<in> ?L"
  then obtain i where i: "i < length ?parts - 1" and j: "Join (take (i + 1) ?parts) (CHR ''.'') = P"
    and c: "c = ?parts ! (i + 1)" by auto
  have "take (i + 1) ?parts \<noteq> []" by simp
  moreover have "\<forall>x\<in>set (take (i + 1) ?parts). CHR ''.'' \<notin> set x"
    using Split_parts_no_sep by (meson in_set_takeD)
  ultimately have sp: "Split P (CHR ''.'') = take (i + 1) ?parts"
    using Split_Join j by metis
  have "Suc i < length ?parts" using i by simp
  then have "?parts = take (Suc i) ?parts @ ?parts ! Suc i # drop (Suc (Suc i)) ?parts"
    by (rule id_take_nth_drop)
  then have "?parts = Split P (CHR ''.'') @ c # drop (i + 2) ?parts"
    using sp c by simp
  then show "c \<in> ?R" by blast
next
  fix c
  let ?parts = "Split K (CHR ''.'')" and ?pp = "Split P (CHR ''.'')"
  assume "c \<in> ?R"
  then obtain more where m: "?parts = ?pp @ c # more" by auto
  have ne: "?pp \<noteq> []" by simp
  let ?i = "length ?pp - 1"
  have i1: "?i + 1 = length ?pp" using ne by (simp add: Suc_leI)
  have "length ?parts = length ?pp + Suc (length more)"
    using arg_cong [OF m, of length] by simp
  then have a: "?i < length ?parts - 1" using i1 by linarith
  have b: "Join (take (?i + 1) ?parts) (CHR ''.'') = P"
    using m i1 by (simp add: Join_Split)
  have "?parts ! (?i + 1) = c"
    using m i1 by (simp add: nth_append)
  then have "\<exists>i. c = ?parts ! (i + 1) \<and> i < length ?parts - 1
      \<and> Join (take (i + 1) ?parts) (CHR ''.'') = P"
    using a b by (intro exI [of _ ?i]) simp
  then show "c \<in> ?L" by simp
qed

lemma siblings_of_add_subpaths:
  "siblings_of (add_subpaths path sp) P
     = siblings_of sp P \<union> {child. \<exists>more. Split path (CHR ''.'') = Split P (CHR ''.'') @ child # more}"
  unfolding add_subpaths_def Let_def siblings_of_fold [unfolded Let_def] segments_after_prefix
  by (rule refl)

lemma siblings_of_build_subpaths:
  "siblings_of (build_subpaths es sp) P
     = siblings_of sp P
       \<union> {child. \<exists>K\<in>fst ` set es. \<exists>more. Split K (CHR ''.'') = Split P (CHR ''.'') @ child # more}"
proof (induction es arbitrary: sp)
  case Nil
  then show ?case by simp
next
  case (Cons e es)
  obtain path repos where e: "e = (path, repos)" by (cases e)
  show ?case
    unfolding e build_subpaths.simps Cons.IH siblings_of_add_subpaths by auto
qed

lemma fst_entries: "range_order m ks \<Longrightarrow> fst ` set (entries m ks) = dom m"
  by (auto simp: set_entries range_order_def image_iff)

lemma in_entries: "range_order m ks \<Longrightarrow> (k, v) \<in> set (entries m ks) \<longleftrightarrow> m k = Some v"
  by (auto simp: set_entries range_order_def)

lemma siblings_of_subpaths:
  "range_order (Repos a) ks \<Longrightarrow>
     siblings_of (build_subpaths (entries (Repos a) ks) Map.empty) P = child_segments (Repos a) P"
proof -
  assume r: "range_order (Repos a) ks"
  have "siblings_of Map.empty P = {}" by (simp add: siblings_of_def)
  then show ?thesis
    unfolding siblings_of_build_subpaths fst_entries [OF r] child_segments_def by simp
qed

lemma Validate_repos_None:
  "Validate_repos accountName root path siblings repos = None \<longleftrightarrow>
     (\<forall>r\<in>set repos. resolved_name r \<notin> siblings)"
  by (induction repos) (auto simp: Let_def)

lemma Validate_repos_Some:
  "Validate_repos accountName root path siblings repos = Some err \<Longrightarrow>
     \<exists>r\<in>set repos. resolved_name r \<in> siblings \<and>
       err = ConfigConflict accountName path (resolved_name r) (path @ ''.'' @ resolved_name r) root
               (ReplaceAll (path @ ''.'' @ resolved_name r) (CHR ''.'') (CHR ''/''))"
  by (induction repos) (auto simp: Let_def split: if_splits)

lemma Validate_paths_None:
  "Validate_paths accountName root subpaths es = None \<longleftrightarrow>
     (\<forall>(path, repos)\<in>set es. \<forall>r\<in>set repos. resolved_name r \<notin> siblings_of subpaths path)"
  by (induction es)
     (auto simp: siblings_of_def Validate_repos_None split: option.splits dest!: Validate_repos_Some)

lemma Validate_paths_Some:
  "Validate_paths accountName root subpaths es = Some err \<Longrightarrow>
     \<exists>(path, repos)\<in>set es. \<exists>r\<in>set repos. resolved_name r \<in> siblings_of subpaths path \<and>
       err = ConfigConflict accountName path (resolved_name r) (path @ ''.'' @ resolved_name r) root
               (ReplaceAll (path @ ''.'' @ resolved_name r) (CHR ''.'') (CHR ''/''))"
proof (induction es)
  case Nil
  then show ?case by simp
next
  case (Cons e es)
  obtain path repos where e: "e = (path, repos)" by (cases e)
  show ?case
  proof (cases "subpaths path")
    case None
    then show ?thesis using Cons e by auto
  next
    case (Some siblings)
    show ?thesis
    proof (cases "Validate_repos accountName root path siblings repos")
      case None
      then show ?thesis using Cons e Some by auto
    next
      case (Some err')
      then have "err' = err" using Cons.prems e \<open>subpaths path = Some siblings\<close> by simp
      with Validate_repos_Some [OF Some] \<open>subpaths path = Some siblings\<close>
      show ?thesis unfolding e by (auto simp: siblings_of_def)
    qed
  qed
qed

lemma Account_Validate_None:
  assumes "range_order (Repos a) ks1" and "range_order (Repos a) ks2"
  shows "Account_Validate a accountName home ks1 ks2 = None \<longleftrightarrow> (\<forall>P r. \<not> conflict_at a P r)"
proof -
  have "(\<forall>(path, repos)\<in>set (entries (Repos a) ks2). Q path repos)
      \<longleftrightarrow> (\<forall>path repos. Repos a path = Some repos \<longrightarrow> Q path repos)" for Q
    unfolding Ball_def split_paired_All in_entries [OF assms(2)] by simp
  then show ?thesis
    unfolding Account_Validate_def Validate_paths_None siblings_of_subpaths [OF assms(1)]
    by (auto simp: conflict_at_def)
qed

lemma Account_Validate_Some:
  assumes "range_order (Repos a) ks1" and "range_order (Repos a) ks2"
    and "Account_Validate a accountName home ks1 ks2 = Some err"
  shows "\<exists>P r. conflict_at a P r \<and>
       err = ConfigConflict accountName P (resolved_name r) (P @ ''.'' @ resolved_name r)
               (ExpandPath home (Root a))
               (ReplaceAll (P @ ''.'' @ resolved_name r) (CHR ''.'') (CHR ''/''))"
  using Validate_paths_Some [OF assms(3) [unfolded Account_Validate_def]]
  unfolding siblings_of_subpaths [OF assms(1)]
  using in_entries [OF assms(2)] by (fastforce simp: conflict_at_def)

lemma Validate_accounts_None:
  "Validate_accounts home ord es = None \<longleftrightarrow>
     (\<forall>(n, b)\<in>set es. Account_Validate b n home (fst (ord n)) (snd (ord n)) = None)"
  by (induction es) (auto split: option.splits)

lemma Validate_accounts_Some:
  "Validate_accounts home ord es = Some err \<Longrightarrow>
     \<exists>(n, b)\<in>set es. Account_Validate b n home (fst (ord n)) (snd (ord n)) = Some err"
  by (induction es) (auto split: option.splits)

lemma Validate_accounts_first:
  "\<forall>(n, b)\<in>set es1. Account_Validate b n home (fst (ord n)) (snd (ord n)) = None \<Longrightarrow>
     Validate_accounts home ord (es1 @ (n, a) # es2) =
       (case Account_Validate a n home (fst (ord n)) (snd (ord n)) of
          Some err \<Rightarrow> Some err
        | None \<Rightarrow> Validate_accounts home ord es2)"
  by (induction es1) (auto split: option.splits)

lemma Account_Validate_is_conflict:
  "Account_Validate a accountName home ks1 ks2 = Some err \<Longrightarrow>
     \<exists>n P r cp root dirs. err = ConfigConflict n P r cp root dirs"
  using Validate_paths_Some [of accountName "ExpandPath home (Root a)" _ "entries (Repos a) ks2" err]
  unfolding Account_Validate_def by blast

lemma Config_Validate_conflict:
  assumes "Accounts c accountName = Some a" and "accountName \<in> set aks"
    and "Account_Validate a accountName home (fst (ord accountName)) (snd (ord accountName)) \<noteq> None"
  shows "\<exists>n P r cp root dirs. Config_Validate c home aks ord = Some (ConfigConflict n P r cp root dirs)"
proof -
  have "(accountName, a) \<in> set (entries (Accounts c) aks)"
    using assms(1,2) by (simp add: set_entries)
  then have "Config_Validate c home aks ord \<noteq> None"
    unfolding Config_Validate_def Validate_accounts_None using assms(3) by fastforce
  then obtain err where e: "Config_Validate c home aks ord = Some err" by auto
  from Validate_accounts_Some [OF e [unfolded Config_Validate_def]]
  obtain n b where "Account_Validate b n home (fst (ord n)) (snd (ord n)) = Some err" by auto
  from Account_Validate_is_conflict [OF this] e show ?thesis by auto
qed

lemma range_order_pair:
  assumes "range_order m ks" and "dom m = {x, y}" and "x \<noteq> y"
  shows "ks = [x, y] \<or> ks = [y, x]"
proof -
  have d: "distinct ks" and s: "set ks = {x, y}" using assms by (auto simp: range_order_def)
  then have "length ks = 2" using assms(3) distinct_card [OF d] by simp
  then obtain p q where ks: "ks = [p, q]"
    by (metis (no_types, opaque_lifting) One_nat_def Suc_1 length_0_conv length_Suc_conv)
  then show ?thesis using d s by (auto simp: doubleton_eq_iff)
qed

lemma example_conflict:
  assumes "range_order (Repos \<lparr>Default = False, Root = ''~/Projects'',
         Repos = [''personal'' \<mapsto> [\<lparr>URL = ''git@github.com:me/dotfiles.git'', Name = []\<rparr>],
                  ''personal.dotfiles'' \<mapsto> [\<lparr>URL = ''git@github.com:me/other.git'', Name = []\<rparr>]]\<rparr>) k1" and "range_order (Repos \<lparr>Default = False, Root = ''~/Projects'',
         Repos = [''personal'' \<mapsto> [\<lparr>URL = ''git@github.com:me/dotfiles.git'', Name = []\<rparr>],
                  ''personal.dotfiles'' \<mapsto> [\<lparr>URL = ''git@github.com:me/other.git'', Name = []\<rparr>]]\<rparr>) k2"
  shows "Account_Validate \<lparr>Default = False, Root = ''~/Projects'',
         Repos = [''personal'' \<mapsto> [\<lparr>URL = ''git@github.com:me/dotfiles.git'', Name = []\<rparr>],
                  ''personal.dotfiles'' \<mapsto> [\<lparr>URL = ''git@github.com:me/other.git'', Name = []\<rparr>]]\<rparr> ''main'' ''/home/u'' k1 k2 = Some (ConfigConflict ''main'' ''personal'' ''dotfiles'' ''personal.dotfiles''
                   ''/home/u/Projects'' ''personal/dotfiles'')"
proof -
  have d: "dom (Repos \<lparr>Default = False, Root = ''~/Projects'',
         Repos = [''personal'' \<mapsto> [\<lparr>URL = ''git@github.com:me/dotfiles.git'', Name = []\<rparr>],
                  ''personal.dotfiles'' \<mapsto> [\<lparr>URL = ''git@github.com:me/other.git'', Name = []\<rparr>]]\<rparr>) = {''personal'', ''personal.dotfiles''}" by auto
  have "k1 = [''personal'', ''personal.dotfiles''] \<or> k1 = [''personal.dotfiles'', ''personal'']"
    using range_order_pair [OF assms(1) d] by simp
  moreover have "k2 = [''personal'', ''personal.dotfiles''] \<or> k2 = [''personal.dotfiles'', ''personal'']"
    using range_order_pair [OF assms(2) d] by simp
  moreover have "Account_Validate \<lparr>Default = False, Root = ''~/Projects'',
         Repos = [''personal'' \<mapsto> [\<lparr>URL = ''git@github.com:me/dotfiles.git'', Name = []\<rparr>],
                  ''personal.dotfiles'' \<mapsto> [\<lparr>URL = ''git@github.com:me/other.git'', Name = []\<rparr>]]\<rparr> ''main'' ''/home/u''
      [''personal'', ''personal.dotfiles''] [''personal'', ''personal.dotfiles''] = Some (ConfigConflict ''main'' ''personal'' ''dotfiles'' ''personal.dotfiles''
                   ''/home/u/Projects'' ''personal/dotfiles'')"
    by code_simp
  moreover have "Account_Validate \<lparr>Default = False, Root = ''~/Projects'',
         Repos = [''personal'' \<mapsto> [\<lparr>URL = ''git@github.com:me/dotfiles.git'', Name = []\<rparr>],
                  ''personal.dotfiles'' \<mapsto> [\<lparr>URL = ''git@github.com:me/other.git'', Name = []\<rparr>]]\<rparr> ''main'' ''/home/u''
      [''personal'', ''personal.dotfiles''] [''personal.dotfiles'', ''personal''] = Some (ConfigConflict ''main'' ''personal'' ''dotfiles'' ''personal.dotfiles''
                   ''/home/u/Projects'' ''personal/dotfiles'')"
    by code_simp
  moreover have "Account_Validate \<lparr>Default = False, Root = ''~/Projects'',
         Repos = [''personal'' \<mapsto> [\<lparr>URL = ''git@github.com:me/dotfiles.git'', Name = []\<rparr>],
                  ''personal.dotfiles'' \<mapsto> [\<lparr>URL = ''git@github.com:me/other.git'', Name = []\<rparr>]]\<rparr> ''main'' ''/home/u''
      [''personal.dotfiles'', ''personal''] [''personal'', ''personal.dotfiles''] = Some (ConfigConflict ''main'' ''personal'' ''dotfiles'' ''personal.dotfiles''
                   ''/home/u/Projects'' ''personal/dotfiles'')"
    by code_simp
  moreover have "Account_Validate \<lparr>Default = False, Root = ''~/Projects'',
         Repos = [''personal'' \<mapsto> [\<lparr>URL = ''git@github.com:me/dotfiles.git'', Name = []\<rparr>],
                  ''personal.dotfiles'' \<mapsto> [\<lparr>URL = ''git@github.com:me/other.git'', Name = []\<rparr>]]\<rparr> ''main'' ''/home/u''
      [''personal.dotfiles'', ''personal''] [''personal.dotfiles'', ''personal''] = Some (ConfigConflict ''main'' ''personal'' ''dotfiles'' ''personal.dotfiles''
                   ''/home/u/Projects'' ''personal/dotfiles'')"
    by code_simp
  ultimately show ?thesis by blast
qed

lemma example_load:
  "load_accounts [(''main'', Table [(''root'', String ''~/Projects''),
            (''repos'', Table [(''personal'',
              Table [(''/'', Array [Table [(''url'', String ''git@github.com:me/dotfiles.git'')]]),
                     (''dotfiles'', Array [Table [(''url'', String ''git@github.com:me/other.git'')]])])])])] Map.empty
   = [''main'' \<mapsto> \<lparr>Default = False, Root = ''~/Projects'',
         Repos = [''personal'' \<mapsto> [\<lparr>URL = ''git@github.com:me/dotfiles.git'', Name = []\<rparr>],
                  ''personal.dotfiles'' \<mapsto> [\<lparr>URL = ''git@github.com:me/other.git'', Name = []\<rparr>]]\<rparr>]"
  by (simp add: fun_upd_twist)

lemma example_parse:
  "parseReposRecursive [(''personal'',
              Table [(''/'', Array [Table [(''url'', String ''git@github.com:me/dotfiles.git'')]]),
                     (''dotfiles'', Array [Table [(''url'', String ''git@github.com:me/other.git'')]])])] [] Map.empty = Repos \<lparr>Default = False, Root = ''~/Projects'',
         Repos = [''personal'' \<mapsto> [\<lparr>URL = ''git@github.com:me/dotfiles.git'', Name = []\<rparr>],
                  ''personal.dotfiles'' \<mapsto> [\<lparr>URL = ''git@github.com:me/other.git'', Name = []\<rparr>]]\<rparr>"
  by (simp add: fun_upd_twist)

lemma example_LoadFromPath:
  assumes "range_order (parseReposRecursive [(''personal'',
              Table [(''/'', Array [Table [(''url'', String ''git@github.com:me/dotfiles.git'')]]),
                     (''dotfiles'', Array [Table [(''url'', String ''git@github.com:me/other.git'')]])])] [] Map.empty) k1"
    and "range_order (parseReposRecursive [(''personal'',
              Table [(''/'', Array [Table [(''url'', String ''git@github.com:me/dotfiles.git'')]]),
                     (''dotfiles'', Array [Table [(''url'', String ''git@github.com:me/other.git'')]])])] [] Map.empty) k2"
    and "ord ''main'' = (k1, k2)"
  shows "LoadFromPath [(''accounts'', Table [(''main'', Table [(''root'', String ''~/Projects''),
            (''repos'', Table [(''personal'',
              Table [(''/'', Array [Table [(''url'', String ''git@github.com:me/dotfiles.git'')]]),
                     (''dotfiles'', Array [Table [(''url'', String ''git@github.com:me/other.git'')]])])])])])] ''/home/u'' [''main''] ord = Inl (ConfigConflict ''main'' ''personal'' ''dotfiles'' ''personal.dotfiles''
                   ''/home/u/Projects'' ''personal/dotfiles'')"
proof -
  have "Account_Validate \<lparr>Default = False, Root = ''~/Projects'',
         Repos = [''personal'' \<mapsto> [\<lparr>URL = ''git@github.com:me/dotfiles.git'', Name = []\<rparr>],
                  ''personal.dotfiles'' \<mapsto> [\<lparr>URL = ''git@github.com:me/other.git'', Name = []\<rparr>]]\<rparr> ''main'' ''/home/u'' k1 k2 = Some (ConfigConflict ''main'' ''personal'' ''dotfiles'' ''personal.dotfiles''
                   ''/home/u/Projects'' ''personal/dotfiles'')"
    using example_conflict assms(1,2) unfolding example_parse by blast
  then show ?thesis
    using assms(3) example_load
    by (simp add: LoadFromPath_def Config_Validate_def entries_Cons)
qed

text \<open>
  Claim C2. Whatever the orders in which the two loops visit the paths, the validation of an
  account fails exactly when some path \<open>P\<close> of the account holds a repository whose resolved
  name is a child segment of \<open>P\<close>, that is, the segment following \<open>P\<close> in another key
  having \<open>P\<close> as a strict dot-prefix. The error then carries the account name, such a path
  and repository name, the conflicting path and the location \<^verbatim>\<open>root/P-as-dirs/name/\<close>.
  The validation of the configuration returns the error of the first account that fails,
  and \<^verbatim>\<open>LoadFromPath\<close> then returns this error and no configuration. A configuration
  with \<^verbatim>\<open>repos.personal."/"\<close> holding \<^verbatim>\<open>dotfiles.git\<close> and a key
  \<^verbatim>\<open>repos.personal.dotfiles\<close> is refused with the conflict naming the path
  \<^verbatim>\<open>personal\<close> and the repository \<^verbatim>\<open>dotfiles\<close>.
\<close>

theorem Validate_conflict:
  assumes "range_order (Repos a) ks1" and "range_order (Repos a) ks2"
  shows "(Account_Validate a accountName home ks1 ks2 \<noteq> None \<longleftrightarrow> (\<exists>P r. conflict_at a P r))
   \<and> (\<forall>err. Account_Validate a accountName home ks1 ks2 = Some err \<longrightarrow>
        (\<exists>P r. conflict_at a P r
           \<and> err = ConfigConflict accountName P (resolved_name r) (P @ ''.'' @ resolved_name r)
                     (ExpandPath home (Root a))
                     (ReplaceAll (P @ ''.'' @ resolved_name r) (CHR ''.'') (CHR ''/''))
           \<and> conflict_location err =
               ExpandPath home (Root a) @ ''/''
                 @ ReplaceAll (P @ ''.'' @ resolved_name r) (CHR ''.'') (CHR ''/'') @ ''/''))
   \<and> ((\<exists>P r. conflict_at a P r) \<and> ord accountName = (ks1, ks2)
        \<and> (\<forall>(n, b)\<in>set es1. Account_Validate b n home (fst (ord n)) (snd (ord n)) = None)
      \<longrightarrow> Validate_accounts home ord (es1 @ (accountName, a) # es2)
            = Account_Validate a accountName home ks1 ks2)
   \<and> ((\<exists>P r. conflict_at a P r) \<and> ord accountName = (ks1, ks2)
        \<and> map_of raw ''accounts'' = Some (Table accountsRaw)
        \<and> load_accounts accountsRaw Map.empty accountName = Some a \<and> accountName \<in> set aks
      \<longrightarrow> (\<exists>n P r cp root dirs.
             LoadFromPath raw home aks ord = Inl (ConfigConflict n P r cp root dirs)))
   \<and> (\<forall>k1 k2 ord'.
         range_order (parseReposRecursive [(''personal'',
              Table [(''/'', Array [Table [(''url'', String ''git@github.com:me/dotfiles.git'')]]),
                     (''dotfiles'', Array [Table [(''url'', String ''git@github.com:me/other.git'')]])])] [] Map.empty) k1
         \<and> range_order (parseReposRecursive [(''personal'',
              Table [(''/'', Array [Table [(''url'', String ''git@github.com:me/dotfiles.git'')]]),
                     (''dotfiles'', Array [Table [(''url'', String ''git@github.com:me/other.git'')]])])] [] Map.empty) k2
         \<and> ord' ''main'' = (k1, k2)
       \<longrightarrow> LoadFromPath [(''accounts'', Table [(''main'', Table [(''root'', String ''~/Projects''),
            (''repos'', Table [(''personal'',
              Table [(''/'', Array [Table [(''url'', String ''git@github.com:me/dotfiles.git'')]]),
                     (''dotfiles'', Array [Table [(''url'', String ''git@github.com:me/other.git'')]])])])])])] ''/home/u'' [''main''] ord' = Inl (ConfigConflict ''main'' ''personal'' ''dotfiles'' ''personal.dotfiles''
                   ''/home/u/Projects'' ''personal/dotfiles''))"
proof -
  have 1: "Account_Validate a accountName home ks1 ks2 \<noteq> None \<longleftrightarrow> (\<exists>P r. conflict_at a P r)"
    using Account_Validate_None [OF assms, of accountName home] by simp
  have 2: "\<exists>P r. conflict_at a P r
           \<and> err = ConfigConflict accountName P (resolved_name r) (P @ ''.'' @ resolved_name r)
                     (ExpandPath home (Root a))
                     (ReplaceAll (P @ ''.'' @ resolved_name r) (CHR ''.'') (CHR ''/''))
           \<and> conflict_location err =
               ExpandPath home (Root a) @ ''/''
                 @ ReplaceAll (P @ ''.'' @ resolved_name r) (CHR ''.'') (CHR ''/'') @ ''/''"
    if "Account_Validate a accountName home ks1 ks2 = Some err" for err
    using Account_Validate_Some [OF assms that] by auto
  have 3: "Validate_accounts home ord (es1 @ (accountName, a) # es2)
            = Account_Validate a accountName home ks1 ks2"
    if h: "(\<exists>P r. conflict_at a P r) \<and> ord accountName = (ks1, ks2)
        \<and> (\<forall>(n, b)\<in>set es1. Account_Validate b n home (fst (ord n)) (snd (ord n)) = None)"
  proof -
    from h 1 obtain err where "Account_Validate a accountName home ks1 ks2 = Some err" by auto
    then show ?thesis
      using h Validate_accounts_first [of es1 home ord accountName a es2] by simp
  qed
  have 4: "\<exists>n P r cp root dirs.
             LoadFromPath raw home aks ord = Inl (ConfigConflict n P r cp root dirs)"
    if h: "(\<exists>P r. conflict_at a P r) \<and> ord accountName = (ks1, ks2)
        \<and> map_of raw ''accounts'' = Some (Table accountsRaw)
        \<and> load_accounts accountsRaw Map.empty accountName = Some a \<and> accountName \<in> set aks"
  proof -
    let ?c = "\<lparr>Accounts = load_accounts accountsRaw Map.empty\<rparr>"
    have "Account_Validate a accountName home (fst (ord accountName)) (snd (ord accountName)) \<noteq> None"
      using h 1 by simp
    with Config_Validate_conflict [of ?c accountName a aks home ord] h
    obtain n P r cp root dirs where
      "Config_Validate ?c home aks ord = Some (ConfigConflict n P r cp root dirs)" by auto
    then show ?thesis using h by (auto simp: LoadFromPath_def)
  qed
  show ?thesis
    using 1 2 3 4 example_LoadFromPath by blast
qed

theorem Validate_conflict_witness:
  "range_order (Repos \<lparr>Default = False, Root = ''~/Projects'',
         Repos = [''personal'' \<mapsto> [\<lparr>URL = ''git@github.com:me/dotfiles.git'', Name = []\<rparr>],
                  ''personal.dotfiles'' \<mapsto> [\<lparr>URL = ''git@github.com:me/other.git'', Name = []\<rparr>]]\<rparr>) [''personal.dotfiles'', ''personal'']
   \<and> range_order (Repos \<lparr>Default = False, Root = ''~/Projects'',
         Repos = [''personal'' \<mapsto> [\<lparr>URL = ''git@github.com:me/dotfiles.git'', Name = []\<rparr>],
                  ''personal.dotfiles'' \<mapsto> [\<lparr>URL = ''git@github.com:me/other.git'', Name = []\<rparr>]]\<rparr>) [''personal'', ''personal.dotfiles'']
   \<and> conflict_at \<lparr>Default = False, Root = ''~/Projects'',
         Repos = [''personal'' \<mapsto> [\<lparr>URL = ''git@github.com:me/dotfiles.git'', Name = []\<rparr>],
                  ''personal.dotfiles'' \<mapsto> [\<lparr>URL = ''git@github.com:me/other.git'', Name = []\<rparr>]]\<rparr> ''personal'' \<lparr>URL = ''git@github.com:me/dotfiles.git'', Name = []\<rparr>
   \<and> Account_Validate \<lparr>Default = False, Root = ''~/Projects'',
         Repos = [''personal'' \<mapsto> [\<lparr>URL = ''git@github.com:me/dotfiles.git'', Name = []\<rparr>],
                  ''personal.dotfiles'' \<mapsto> [\<lparr>URL = ''git@github.com:me/other.git'', Name = []\<rparr>]]\<rparr> ''main'' ''/home/u''
        [''personal.dotfiles'', ''personal''] [''personal'', ''personal.dotfiles''] \<noteq> None
   \<and> Validate_accounts ''/home/u''
        (\<lambda>n. ([''personal.dotfiles'', ''personal''], [''personal'', ''personal.dotfiles'']))
        [(''main'', \<lparr>Default = False, Root = ''~/Projects'',
         Repos = [''personal'' \<mapsto> [\<lparr>URL = ''git@github.com:me/dotfiles.git'', Name = []\<rparr>],
                  ''personal.dotfiles'' \<mapsto> [\<lparr>URL = ''git@github.com:me/other.git'', Name = []\<rparr>]]\<rparr>)]
      = Account_Validate \<lparr>Default = False, Root = ''~/Projects'',
         Repos = [''personal'' \<mapsto> [\<lparr>URL = ''git@github.com:me/dotfiles.git'', Name = []\<rparr>],
                  ''personal.dotfiles'' \<mapsto> [\<lparr>URL = ''git@github.com:me/other.git'', Name = []\<rparr>]]\<rparr> ''main'' ''/home/u''
        [''personal.dotfiles'', ''personal''] [''personal'', ''personal.dotfiles'']"
proof -
  let ?a = "\<lparr>Default = False, Root = ''~/Projects'',
         Repos = [''personal'' \<mapsto> [\<lparr>URL = ''git@github.com:me/dotfiles.git'', Name = []\<rparr>],
                  ''personal.dotfiles'' \<mapsto> [\<lparr>URL = ''git@github.com:me/other.git'', Name = []\<rparr>]]\<rparr>"
  let ?k1 = "[''personal.dotfiles'', ''personal'']" and ?k2 = "[''personal'', ''personal.dotfiles'']"
  have r1: "range_order (Repos ?a) ?k1" and r2: "range_order (Repos ?a) ?k2"
    by (auto simp: range_order_def)
  have "Split ''personal.dotfiles'' (CHR ''.'') = Split ''personal'' (CHR ''.'') @ ''dotfiles'' # []"
    by simp
  then have "''dotfiles'' \<in> child_segments (Repos ?a) ''personal''"
    unfolding child_segments_def by (intro CollectI bexI [of _ "''personal.dotfiles''"] exI [of _ "[]"]) auto
  moreover have "resolved_name \<lparr>URL = ''git@github.com:me/dotfiles.git'', Name = []\<rparr> = ''dotfiles''"
    by code_simp
  ultimately have c: "conflict_at ?a ''personal'' \<lparr>URL = ''git@github.com:me/dotfiles.git'', Name = []\<rparr>"
    by (simp add: conflict_at_def)
  then have e: "\<exists>P r. conflict_at ?a P r" by blast
  have n: "Account_Validate ?a ''main'' ''/home/u'' ?k1 ?k2 \<noteq> None"
    using Validate_conflict [OF r1 r2, of "''main''" "''/home/u''"] e by blast
  have "(\<exists>P r. conflict_at ?a P r) \<and> (\<lambda>n. (?k1, ?k2)) ''main'' = (?k1, ?k2)
        \<and> (\<forall>(n, b)\<in>set []. Account_Validate b n ''/home/u''
              (fst ((\<lambda>n. (?k1, ?k2)) n)) (snd ((\<lambda>n. (?k1, ?k2)) n)) = None)"
    using e by simp
  then have "Validate_accounts ''/home/u'' (\<lambda>n. (?k1, ?k2)) ([] @ (''main'', ?a) # [])
      = Account_Validate ?a ''main'' ''/home/u'' ?k1 ?k2"
    using Validate_conflict [OF r1 r2, of "''main''" "''/home/u''" "\<lambda>n. (?k1, ?k2)" "[]" "[]"]
    by blast
  then show ?thesis using r1 r2 c n by simp
qed

end
